theory Spec2Isabelle
  imports Complex_Main
begin

section \<open>Configuration\<close>

text \<open>
  The constants of \<^verbatim>\<open>app.py\<close> (lines 18 to 24). Pixel sizes are Python integers.
\<close>

definition WINDOW_WIDTH :: int where
  "WINDOW_WIDTH = 900"

definition WINDOW_HEIGHT :: int where
  "WINDOW_HEIGHT = 600"

definition SEARCH_KEYWORD :: string where
  "SEARCH_KEYWORD = ''nature''"

definition QUOTE_API_URL :: string where
  "QUOTE_API_URL = ''https://dummyjson.com/quotes/random''"

section \<open>Exceptions, JSON values and HTTP responses\<close>

text \<open>
  Every exception of the program is a value. \<open>OSError\<close> is kept apart from the others
  because the font loop catches only that class (\<open>IOError\<close> is the same class in
  Python 3). All constructors are subclasses of Python's \<open>Exception\<close>, which is what the
  \<^verbatim>\<open>except Exception\<close> handlers of the program catch.
\<close>

datatype exn =
    OSError
  | Timeout
  | ConnectionError
  | JSONDecodeError
  | IndexError
  | AttributeError
  | TypeError
  | ValueError
  | ZeroDivisionError
  | OverflowError
  | MemoryError
  | UnidentifiedImageError

text \<open>
  What \<^verbatim>\<open>response.json()\<close> yields: a Python value built from lists, dicts, strings,
  numbers, booleans and \<open>None\<close>. A dict is an association list read with \<open>map_of\<close>.
\<close>

datatype json =
    JNull
  | JBool bool
  | JNum rat
  | JStr string
  | JList "json list"
  | JObj "(string \<times> json) list"

type_synonym bytes = "nat list"

text \<open>
  A \<^verbatim>\<open>requests.Response\<close>: the status code, the raw body, and what \<^verbatim>\<open>.json()\<close>
  does on it (\<open>Inl\<close> when the body does not parse).
\<close>

record response =
  status_code :: int
  content :: bytes
  json_body :: "exn + json"

text \<open>
  The HTTP client is an external collaborator: a function from the URL and the timeout (in
  seconds) to either a raised exception or a response.
\<close>

type_synonym http_client = "string \<Rightarrow> nat \<Rightarrow> exn + response"

section \<open>Content fetcher: \<^verbatim>\<open>fetch_quote\<close>\<close>

text \<open>
  \<^verbatim>\<open>data.get(key, default)\<close>: defined on dicts only; any other value has no
  attribute \<open>get\<close>.
\<close>

definition dict_get :: "json \<Rightarrow> string \<Rightarrow> json \<Rightarrow> exn + json" where
  "dict_get d k dflt =
     (case d of
        JObj kvs \<Rightarrow> Inr (case map_of kvs k of None \<Rightarrow> dflt | Some v \<Rightarrow> v)
      | _ \<Rightarrow> Inl AttributeError)"

text \<open>\<^verbatim>\<open>if isinstance(data, list): data = data[0]\<close> (lines 96 and 97).\<close>

definition first_if_list :: "json \<Rightarrow> exn + json" where
  "first_if_list d =
     (case d of
        JList [] \<Rightarrow> Inl IndexError
      | JList (x # _) \<Rightarrow> Inr x
      | _ \<Rightarrow> Inr d)"

definition api_error_pair :: "json \<times> json" where
  "api_error_pair = (JStr ''The beauty of the world lies in the details.'', JStr ''Default'')"

definition offline_pair :: "json \<times> json" where
  "offline_pair = (JStr ''Stay focused and never give up.'', JStr ''Offline Mode'')"

text \<open>The body of the \<^verbatim>\<open>try\<close> block of \<^verbatim>\<open>fetch_quote\<close> (lines 91 to 104).\<close>

definition fetch_quote_try :: "http_client \<Rightarrow> exn + (json \<times> json)" where
  "fetch_quote_try http =
     (case http QUOTE_API_URL 5 of
        Inl e \<Rightarrow> Inl e
      | Inr response \<Rightarrow>
          if status_code response = 200 then
            (case json_body response of
               Inl e \<Rightarrow> Inl e
             | Inr data0 \<Rightarrow>
                 (case first_if_list data0 of
                    Inl e \<Rightarrow> Inl e
                  | Inr data \<Rightarrow>
                      (case dict_get data ''content''
                              (JStr ''Inspiration allows us to do great things.'') of
                         Inl e \<Rightarrow> Inl e
                       | Inr inner \<Rightarrow>
                           (case dict_get data ''quote'' inner of
                              Inl e \<Rightarrow> Inl e
                            | Inr content_v \<Rightarrow>
                                (case dict_get data ''author'' (JStr ''Unknown'') of
                                   Inl e \<Rightarrow> Inl e
                                 | Inr author \<Rightarrow> Inr (content_v, author))))))
          else Inr api_error_pair)"

text \<open>\<^verbatim>\<open>fetch_quote\<close> with its \<^verbatim>\<open>except Exception\<close> handler (lines 105 to 107).\<close>

definition fetch_quote :: "http_client \<Rightarrow> json \<times> json" where
  "fetch_quote http =
     (case fetch_quote_try http of
        Inl e \<Rightarrow> offline_pair
      | Inr p \<Rightarrow> p)"

section \<open>Content fetcher: \<^verbatim>\<open>fetch_image\<close>\<close>

text \<open>Decimal rendering of a non-negative integer, as an f-string does.\<close>

definition digit_char :: "nat \<Rightarrow> char" where
  "digit_char d =
     (if d = 0 then CHR ''0'' else if d = 1 then CHR ''1'' else if d = 2 then CHR ''2''
      else if d = 3 then CHR ''3'' else if d = 4 then CHR ''4'' else if d = 5 then CHR ''5''
      else if d = 6 then CHR ''6'' else if d = 7 then CHR ''7'' else if d = 8 then CHR ''8''
      else CHR ''9'')"

fun str_nat :: "nat \<Rightarrow> string" where
  "str_nat n =
     (if n < 10 then [digit_char n] else str_nat (n div 10) @ [digit_char (n mod 10)])"

definition loremflickr_url :: "string \<Rightarrow> nat \<Rightarrow> string" where
  "loremflickr_url keyword rand_id =
     ''https://loremflickr.com/'' @ str_nat (nat WINDOW_WIDTH) @ ''/''
       @ str_nat (nat WINDOW_HEIGHT) @ ''/'' @ keyword @ ''?lock='' @ str_nat rand_id"

definition picsum_url :: "nat \<Rightarrow> string" where
  "picsum_url rand_id =
     ''https://picsum.photos/'' @ str_nat (nat WINDOW_WIDTH) @ ''/''
       @ str_nat (nat WINDOW_HEIGHT) @ ''?blur=1&random='' @ str_nat rand_id"

text \<open>
  \<^verbatim>\<open>fetch_image\<close> (lines 109 to 135). The second component of the result is the list
  of URLs requested, in order: the observable effect of the function on the network.
  \<open>rand_id\<close> is the value drawn by \<^verbatim>\<open>random.randint(1, 10000)\<close>. One \<^verbatim>\<open>try\<close> block
  holds both requests, so an exception raised by the first request leaves the block.
\<close>

definition fetch_image :: "http_client \<Rightarrow> nat \<Rightarrow> string \<Rightarrow> bytes option \<times> string list" where
  "fetch_image http rand_id keyword =
     (let img_url = loremflickr_url keyword rand_id in
      case http img_url 10 of
        Inl e \<Rightarrow> (None, [img_url])
      | Inr response \<Rightarrow>
          if status_code response = 200 then (Some (content response), [img_url])
          else
            (let picsum = picsum_url rand_id in
             case http picsum 10 of
               Inl e \<Rightarrow> (None, [img_url, picsum])
             | Inr response2 \<Rightarrow>
                 if status_code response2 = 200
                 then (Some (content response2), [img_url, picsum])
                 else (None, [img_url, picsum])))"

text \<open>Concrete HTTP clients used to evaluate the fetchers.\<close>

definition http_down :: http_client where
  "http_down url timeout = Inl ConnectionError"

definition http_status :: "int \<Rightarrow> http_client" where
  "http_status code url timeout =
     Inr \<lparr>status_code = code, content = [], json_body = Inl JSONDecodeError\<rparr>"

definition http_empty_list :: http_client where
  "http_empty_list url timeout =
     Inr \<lparr>status_code = 200, content = [91, 93], json_body = Inr (JList [])\<rparr>"

definition sample_bytes :: bytes where
  "sample_bytes = [255, 216, 255]"

definition http_primary_timeout :: http_client where
  "http_primary_timeout url timeout =
     (if url = picsum_url 7
      then Inr \<lparr>status_code = 200, content = sample_bytes, json_body = Inl JSONDecodeError\<rparr>
      else Inl Timeout)"

definition http_primary_404 :: http_client where
  "http_primary_404 url timeout =
     (if url = picsum_url 7
      then Inr \<lparr>status_code = 200, content = sample_bytes, json_body = Inl JSONDecodeError\<rparr>
      else Inr \<lparr>status_code = 404, content = [], json_body = Inl JSONDecodeError\<rparr>)"

section \<open>Compositor: scaling to cover and the centre crop\<close>

text \<open>
  Python floats. Each float operation of the source returns the exact result rounded to a
  double; the rounding is the parameter \<open>fl\<close>. The theorems below ask of \<open>fl\<close> only what
  IEEE round-to-nearest gives: it is monotone, and it returns unchanged every half-integer
  \<open>k / 2\<close> with \<open>\<bar>k\<bar> \<le> 2 ^ 53\<close> and the power of two \<open>1 / 2 ^ 31\<close>.
\<close>

definition float_rounding :: "(rat \<Rightarrow> rat) \<Rightarrow> bool" where
  "float_rounding fl \<longleftrightarrow>
     (\<forall>x y. x \<le> y \<longrightarrow> fl x \<le> fl y)
     \<and> (\<forall>k::int. \<bar>k\<bar> \<le> 2 ^ 53 \<longrightarrow> fl (of_int k / 2) = of_int k / 2)
     \<and> fl (1 / 2 ^ 31) = 1 / 2 ^ 31"

text \<open>\<^verbatim>\<open>int(x)\<close> on a float truncates towards zero.\<close>

definition py_int :: "rat \<Rightarrow> int" where
  "py_int x = (if 0 \<le> x then \<lfloor>x\<rfloor> else \<lceil>x\<rceil>)"

text \<open>\<^verbatim>\<open>round(x)\<close> on a float rounds to the nearest integer, ties to the even one.\<close>

definition py_round :: "rat \<Rightarrow> int" where
  "py_round x =
     (let f = \<lfloor>x\<rfloor>; d = x - of_int f
      in if d < 1 / 2 then f else if 1 / 2 < d then f + 1 else if even f then f else f + 1)"

text \<open>Of a decoded image only the pixel size matters to the layout.\<close>

record image =
  width :: int
  height :: int

text \<open>
  Lines 147 to 157: the size the image is resized to. \<^verbatim>\<open>img.width / img.height\<close> divides
  by zero for an image without rows, and \<^verbatim>\<open>new_width / img_ratio\<close> for a ratio of zero.
\<close>

definition scaled_size :: "(rat \<Rightarrow> rat) \<Rightarrow> image \<Rightarrow> exn + (int \<times> int)" where
  "scaled_size fl img =
     (if height img = 0 then Inl ZeroDivisionError
      else
        let img_ratio = fl (of_int (width img) / of_int (height img));
            window_ratio = fl (of_int WINDOW_WIDTH / of_int WINDOW_HEIGHT)
        in if img_ratio > window_ratio then
             (let new_height = WINDOW_HEIGHT;
                  new_width = py_int (fl (of_int new_height * img_ratio))
              in Inr (new_width, new_height))
           else if img_ratio = 0 then Inl ZeroDivisionError
           else
             (let new_width = WINDOW_WIDTH;
                  new_height = py_int (fl (of_int new_width / img_ratio))
              in Inr (new_width, new_height)))"

text \<open>
  \<^verbatim>\<open>Image.resize\<close> of Pillow gives an image of the requested size, or raises: \<open>ValueError\<close>
  for a side that is not positive, \<open>OverflowError\<close> for a side that does not fit a C
  \<^verbatim>\<open>int\<close>, and \<open>MemoryError\<close> when the image cannot be allocated. What can be allocated
  depends on the machine: \<open>allocatable w h\<close> says whether an image of \<open>w\<close> by \<open>h\<close> pixels
  can.
\<close>

definition resize :: "(int \<Rightarrow> int \<Rightarrow> bool) \<Rightarrow> image \<Rightarrow> int \<times> int \<Rightarrow> exn + image" where
  "resize allocatable img new_size =
     (if fst new_size \<le> 0 \<or> snd new_size \<le> 0 then Inl ValueError
      else if 2 ^ 31 \<le> fst new_size \<or> 2 ^ 31 \<le> snd new_size then Inl OverflowError
      else if \<not> allocatable (fst new_size) (snd new_size) then Inl MemoryError
      else Inr \<lparr>width = fst new_size, height = snd new_size\<rparr>)"

text \<open>Lines 162 to 165: the crop box \<open>(left, top, right, bottom)\<close>, in floats
  (\<open>upper\<close> and \<open>lower\<close> below are the source's \<^verbatim>\<open>top\<close> and \<^verbatim>\<open>bottom\<close>).\<close>

definition crop_box :: "(rat \<Rightarrow> rat) \<Rightarrow> int \<Rightarrow> int \<Rightarrow> rat \<times> rat \<times> rat \<times> rat" where
  "crop_box fl new_width new_height =
     (fl (of_int (new_width - WINDOW_WIDTH) / 2),
      fl (of_int (new_height - WINDOW_HEIGHT) / 2),
      fl (of_int (new_width + WINDOW_WIDTH) / 2),
      fl (of_int (new_height + WINDOW_HEIGHT) / 2))"

text \<open>
  \<^verbatim>\<open>Image.crop\<close> of Pillow: a box whose right or lower edge lies before the left or upper
  one is rejected; otherwise each coordinate is rounded with \<^verbatim>\<open>round\<close> and the result
  has the size of the rounded box.
\<close>

definition crop :: "image \<Rightarrow> rat \<times> rat \<times> rat \<times> rat \<Rightarrow> exn + image" where
  "crop img box =
     (case box of (left, upper, right, lower) \<Rightarrow>
        if right < left then Inl ValueError
        else if lower < upper then Inl ValueError
        else Inr \<lparr>width = py_round right - py_round left,
                  height = py_round lower - py_round upper\<rparr>)"

text \<open>
  Lines 147 to 166 together. The result keeps the resized image and the box beside the
  cropped image, so that the properties of each can be stated.
\<close>

record scale_crop =
  scaled :: image
  box :: "rat \<times> rat \<times> rat \<times> rat"
  cropped :: image

definition resize_and_crop ::
    "(rat \<Rightarrow> rat) \<Rightarrow> (int \<Rightarrow> int \<Rightarrow> bool) \<Rightarrow> image \<Rightarrow> exn + scale_crop" where
  "resize_and_crop fl allocatable img =
     (case scaled_size fl img of
        Inl e \<Rightarrow> Inl e
      | Inr new_size \<Rightarrow>
          (case resize allocatable img new_size of
             Inl e \<Rightarrow> Inl e
           | Inr img2 \<Rightarrow>
               (let b = crop_box fl (fst new_size) (snd new_size)
                in case crop img2 b of
                     Inl e \<Rightarrow> Inl e
                   | Inr img3 \<Rightarrow> Inr \<lparr>scaled = img2, box = b, cropped = img3\<rparr>)))"

text \<open>Exact arithmetic is one rounding that qualifies; it is used to evaluate the model.\<close>

definition exact :: "rat \<Rightarrow> rat" where
  "exact x = x"

definition sample_image :: image where
  "sample_image = \<lparr>width = 1001, height = 700\<rparr>"

text \<open>A machine that can hold images of up to \<open>2 ^ 28\<close> pixels, and one without a limit.\<close>

definition sample_allocatable :: "int \<Rightarrow> int \<Rightarrow> bool" where
  "sample_allocatable w h \<longleftrightarrow> w * h \<le> 2 ^ 28"

definition unlimited :: "int \<Rightarrow> int \<Rightarrow> bool" where
  "unlimited w h \<longleftrightarrow> True"

text \<open>A decodable image that is one pixel wide and three million pixels high.\<close>

definition tall_image :: image where
  "tall_image = \<lparr>width = 1, height = 3000000\<rparr>"

section \<open>Word wrapping: \<^verbatim>\<open>textwrap.TextWrapper(width=max_chars).wrap(text)\<close>\<close>

text \<open>
  Lines 214 to 218 call the standard library's \<^verbatim>\<open>textwrap\<close> with every option but
  \<open>width\<close> at its default: tabs are expanded, whitespace is normalised and dropped at line
  ends, chunks are split at hyphens, and \<^verbatim>\<open>break_long_words\<close> is true. The definitions
  of this section follow \<^verbatim>\<open>textwrap.py\<close> of CPython 3.11 with those settings (empty
  indents, no \<^verbatim>\<open>max_lines\<close>). A \<open>char\<close> stands for a code point below 256.
\<close>

definition char_code :: "char \<Rightarrow> nat" where
  "char_code c = of_char c"

text \<open>The six characters of \<^verbatim>\<open>textwrap._whitespace\<close>.\<close>

definition tw_whitespace :: "char \<Rightarrow> bool" where
  "tw_whitespace c \<longleftrightarrow> (9 \<le> char_code c \<and> char_code c \<le> 13) \<or> char_code c = 32"

text \<open>What \<^verbatim>\<open>str.strip\<close> removes: the characters for which \<^verbatim>\<open>str.isspace\<close> holds.\<close>

definition py_isspace :: "char \<Rightarrow> bool" where
  "py_isspace c \<longleftrightarrow>
     (9 \<le> char_code c \<and> char_code c \<le> 13) \<or> (28 \<le> char_code c \<and> char_code c \<le> 32)
     \<or> char_code c = 133 \<or> char_code c = 160"

text \<open>The regular expression classes \<^verbatim>\<open>\d\<close> and \<^verbatim>\<open>\w\<close> on code points below 256.\<close>

definition re_digit :: "char \<Rightarrow> bool" where
  "re_digit c \<longleftrightarrow> 48 \<le> char_code c \<and> char_code c \<le> 57"

definition re_word :: "char \<Rightarrow> bool" where
  "re_word c \<longleftrightarrow>
     (let n = char_code c in
      (48 \<le> n \<and> n \<le> 57) \<or> (65 \<le> n \<and> n \<le> 90) \<or> n = 95 \<or> (97 \<le> n \<and> n \<le> 122)
      \<or> n = 170 \<or> n = 178 \<or> n = 179 \<or> n = 181 \<or> n = 185 \<or> n = 186
      \<or> (188 \<le> n \<and> n \<le> 190) \<or> (192 \<le> n \<and> n \<le> 214) \<or> (216 \<le> n \<and> n \<le> 246)
      \<or> (248 \<le> n \<and> n \<le> 255))"

text \<open>\<^verbatim>\<open>letter = [^\d\W]\<close> and \<^verbatim>\<open>word_punct = [\w!"'&.,?]\<close>.\<close>

definition tw_letter :: "char \<Rightarrow> bool" where
  "tw_letter c \<longleftrightarrow> re_word c \<and> \<not> re_digit c"

definition tw_word_punct :: "char \<Rightarrow> bool" where
  "tw_word_punct c \<longleftrightarrow> re_word c \<or> c \<in> set ''!\"'&.,?''"

definition hyphen :: char where
  "hyphen = CHR ''-''"

definition space :: char where
  "space = CHR '' ''"

subsection \<open>\<^verbatim>\<open>_munge_whitespace\<close>\<close>

text \<open>\<^verbatim>\<open>str.expandtabs(8)\<close>, with the current column as first argument.\<close>

fun expandtabs :: "nat \<Rightarrow> string \<Rightarrow> string" where
  "expandtabs col [] = []"
| "expandtabs col (c # cs) =
     (if char_code c = 9 then
        replicate (8 - col mod 8) space @ expandtabs (col + (8 - col mod 8)) cs
      else if char_code c = 10 \<or> char_code c = 13 then c # expandtabs 0 cs
      else c # expandtabs (col + 1) cs)"

definition munge_whitespace :: "string \<Rightarrow> string" where
  "munge_whitespace text =
     map (\<lambda>c. if tw_whitespace c then space else c) (expandtabs 0 text)"

subsection \<open>\<^verbatim>\<open>_split\<close>: the chunks matched by \<^verbatim>\<open>wordsep_re\<close>\<close>

text \<open>
  The scanner keeps the text already consumed, reversed, in \<open>seen\<close> (its head is the
  character just before the current position), for the look-behinds of the expression.
\<close>

text \<open>\<^verbatim>\<open>(?=-{2,}\w)\<close>: at least two hyphens, then a word character.\<close>

definition emdash_ahead :: "string \<Rightarrow> bool" where
  "emdash_ahead rest =
     (let run = takeWhile (\<lambda>c. c = hyphen) rest; after = dropWhile (\<lambda>c. c = hyphen) rest
      in 2 \<le> length run \<and> (case after of [] \<Rightarrow> False | c # _ \<Rightarrow> re_word c))"

text \<open>\<^verbatim>\<open>(?<=[\w!"'&.,?])\<close>.\<close>

definition after_word_punct :: "string \<Rightarrow> bool" where
  "after_word_punct seen = (case seen of [] \<Rightarrow> False | c # _ \<Rightarrow> tw_word_punct c)"

text \<open>
  The hyphenated-word ending, tried where the text continues with a hyphen:
  \<^verbatim>\<open>-(?: (?<=lt{2}-) | (?<=lt-lt-)) (?= lt -? lt)\<close>. \<open>seen\<close> ends just before the
  hyphen and \<open>after\<close> starts just after it.
\<close>

definition hyphen_break :: "string \<Rightarrow> string \<Rightarrow> bool" where
  "hyphen_break seen after \<longleftrightarrow>
     ((case seen of
         a # b # _ \<Rightarrow> tw_letter a \<and> tw_letter b
       | _ \<Rightarrow> False)
      \<or> (case seen of
           a # h # b # _ \<Rightarrow> tw_letter a \<and> h = hyphen \<and> tw_letter b
         | _ \<Rightarrow> False))
     \<and> (case after of
          x # h # y # _ \<Rightarrow> tw_letter x \<and> ((h = hyphen \<and> tw_letter y) \<or> tw_letter h)
        | [x, y] \<Rightarrow> tw_letter x \<and> tw_letter y
        | _ \<Rightarrow> False)"

text \<open>
  The third alternative, \<^verbatim>\<open>[^ws]+?\<close> followed by one of its three endings, after at least
  one character of the word has been consumed: the rest of the chunk and the text left.
\<close>

fun word_rest :: "string \<Rightarrow> string \<Rightarrow> string \<times> string" where
  "word_rest seen [] = ([], [])"
| "word_rest seen (c # cs) =
     (if c = hyphen \<and> hyphen_break seen cs then ([c], cs)
      else if tw_whitespace c then ([], c # cs)
      else if after_word_punct seen \<and> emdash_ahead (c # cs) then ([], c # cs)
      else (case word_rest (c # seen) cs of (chunk, rest) \<Rightarrow> (c # chunk, rest)))"

text \<open>
  One match of the whole expression at a position where the text continues with \<open>c # cs\<close>:
  a run of whitespace, else an em-dash between words, else a word. The result is the chunk
  without its first character \<open>c\<close>, and the text left.
\<close>

definition chunk_rest :: "string \<Rightarrow> char \<Rightarrow> string \<Rightarrow> string \<times> string" where
  "chunk_rest seen c cs =
     (if tw_whitespace c then (takeWhile tw_whitespace cs, dropWhile tw_whitespace cs)
      else if after_word_punct seen \<and> emdash_ahead (c # cs)
        then (takeWhile (\<lambda>x. x = hyphen) cs, dropWhile (\<lambda>x. x = hyphen) cs)
      else word_rest (c # seen) cs)"

lemma word_rest_length: "length (snd (word_rest seen cs)) \<le> length cs"
proof (induction cs arbitrary: seen)
  case Nil
  show ?case by simp
next
  case (Cons c cs)
  from Cons [of "c # seen"] show ?case
    by (auto split: prod.splits)
qed

lemma chunk_rest_length: "length (snd (chunk_rest seen c cs)) \<le> length cs"
  by (simp add: chunk_rest_def word_rest_length length_dropWhile_le)

function split_from :: "string \<Rightarrow> string \<Rightarrow> string list" where
  "split_from seen [] = []"
| "split_from seen (c # cs) =
     (case chunk_rest seen c cs of
        (chunk, rest) \<Rightarrow> (c # chunk) # split_from (rev (c # chunk) @ seen) rest)"
  by pat_completeness auto
termination
proof (relation "measure (\<lambda>(seen, text). length text)")
  show "wf (measure (\<lambda>(seen, text). length text))" by simp
next
  fix seen :: string and c :: char and cs chunk rest
  assume "(chunk, rest) = chunk_rest seen c cs"
  then have "rest = snd (chunk_rest seen c cs)" by (metis snd_conv)
  then have "length rest \<le> length cs" by (simp add: chunk_rest_length)
  then show "((rev (c # chunk) @ seen, rest), (seen, c # cs))
               \<in> measure (\<lambda>(seen, text). length text)"
    by simp
qed

text \<open>\<^verbatim>\<open>_split\<close>: the matches, without the empty strings between them.\<close>

definition split :: "string \<Rightarrow> string list" where
  "split text = filter (\<lambda>c. c \<noteq> []) (split_from [] text)"

subsection \<open>\<^verbatim>\<open>_wrap_chunks\<close> and \<^verbatim>\<open>_handle_long_word\<close>\<close>

text \<open>\<^verbatim>\<open>chunk.strip() == ''\<close>.\<close>

definition blank :: "string \<Rightarrow> bool" where
  "blank chunk = list_all py_isspace chunk"

text \<open>
  The inner \<^verbatim>\<open>while\<close> loop: chunks are moved to the current line while they fit.
  The result is the line and the chunks left.
\<close>

fun take_fitting :: "nat \<Rightarrow> nat \<Rightarrow> string list \<Rightarrow> string list \<times> string list" where
  "take_fitting w cur_len [] = ([], [])"
| "take_fitting w cur_len (c # cs) =
     (if cur_len + length c \<le> w then
        (case take_fitting w (cur_len + length c) cs of
           (cur_line, rest) \<Rightarrow> (c # cur_line, rest))
      else ([], c # cs))"

text \<open>\<^verbatim>\<open>chunk.rfind('-', 0, space_left)\<close>.\<close>

definition rfind_hyphen :: "string \<Rightarrow> nat \<Rightarrow> int" where
  "rfind_hyphen chunk bound =
     (case filter (\<lambda>i. chunk ! i = hyphen) (rev [0 ..< min bound (length chunk)]) of
        [] \<Rightarrow> - 1
      | i # _ \<Rightarrow> int i)"

text \<open>
  \<^verbatim>\<open>_handle_long_word\<close> with \<^verbatim>\<open>break_long_words\<close> and \<^verbatim>\<open>break_on_hyphens\<close> true:
  as much of the next chunk as fits is put on the current line and cut off the chunk. It is
  called with \<open>cur_len \<le> w\<close> only.
\<close>

definition handle_long_word ::
    "string list \<Rightarrow> string list \<Rightarrow> nat \<Rightarrow> nat \<Rightarrow> string list \<times> string list" where
  "handle_long_word chunks cur_line cur_len w =
     (case chunks of
        [] \<Rightarrow> (chunks, cur_line)
      | chunk # rest \<Rightarrow>
          (let space_left = (if w < 1 then 1 else w - cur_len);
               hy = rfind_hyphen chunk space_left;
               stop = (if length chunk > space_left \<and> hy > 0
                          \<and> list_ex (\<lambda>c. c \<noteq> hyphen) (take (nat hy) chunk)
                       then nat hy + 1 else space_left)
           in (drop stop chunk # rest, cur_line @ [take stop chunk])))"

text \<open>
  One pass of the outer \<^verbatim>\<open>while\<close> loop over non-empty \<open>chunks\<close>; \<open>started\<close> says whether
  a line was produced seen. The result is the current line and the chunks left.
\<close>

definition wrap_line :: "nat \<Rightarrow> bool \<Rightarrow> string list \<Rightarrow> string list \<times> string list" where
  "wrap_line w started chunks =
     (let chunks1 = (case chunks of
                       [] \<Rightarrow> []
                     | c # cs \<Rightarrow> if blank c \<and> started then cs else chunks)
      in case take_fitting w 0 chunks1 of
           (cur_line, chunks2) \<Rightarrow>
             (let cur_len = sum_list (map length cur_line);
                  handled =
                    (case chunks2 of
                       [] \<Rightarrow> (chunks2, cur_line)
                     | c # _ \<Rightarrow>
                         if length c > w then handle_long_word chunks2 cur_line cur_len w
                         else (chunks2, cur_line))
              in case handled of
                   (chunks3, cur_line2) \<Rightarrow>
                     (if cur_line2 \<noteq> [] \<and> blank (last cur_line2)
                      then (butlast cur_line2, chunks3)
                      else (cur_line2, chunks3))))"

text \<open>
  The outer \<^verbatim>\<open>while chunks:\<close> loop ends because every pass removes a chunk or at least
  one character of a chunk; the measure is the number of chunks plus their total length.
\<close>

definition chunks_weight :: "string list \<Rightarrow> nat" where
  "chunks_weight chunks = sum_list (map (\<lambda>c. Suc (length c)) chunks)"

lemma chunks_weight_simps [simp]:
  "chunks_weight [] = 0"
  "chunks_weight (c # cs) = Suc (length c) + chunks_weight cs"
  "chunks_weight (xs @ ys) = chunks_weight xs + chunks_weight ys"
  by (simp_all add: chunks_weight_def)

lemma take_fitting_append: "take_fitting w n cs = (l, r) \<Longrightarrow> cs = l @ r"
  by (induction cs arbitrary: n l r) (auto split: if_splits prod.splits)

lemma take_fitting_stuck: "take_fitting w n cs = ([], c # r) \<Longrightarrow> \<not> n + length c \<le> w"
  by (cases cs) (auto split: if_splits prod.splits)

lemma take_fitting_fits:
  "take_fitting w n cs = (l, r) \<Longrightarrow> n \<le> w \<Longrightarrow> n + sum_list (map length l) \<le> w"
proof (induction cs arbitrary: n l r)
  case Nil
  then show ?case by simp
next
  case (Cons c cs)
  show ?case
  proof (cases "n + length c \<le> w")
    case True
    obtain l' r' where t: "take_fitting w (n + length c) cs = (l', r')"
      by (cases "take_fitting w (n + length c) cs")
    with True Cons.prems have l: "l = c # l'" by simp
    from Cons.IH [OF t True] l show ?thesis by simp
  next
    case False
    with Cons.prems show ?thesis by simp
  qed
qed

lemma handle_long_word_weight:
  assumes "handle_long_word (c # rest) l n w = (chunks', l')"
  shows "chunks_weight chunks' \<le> chunks_weight (c # rest)"
  using assms by (auto simp: handle_long_word_def Let_def split: if_splits)

lemma handle_long_word_progress:
  assumes "handle_long_word (c # rest) l 0 w = (chunks', l')" and "0 < w" and "w < length c"
  shows "chunks_weight chunks' < chunks_weight (c # rest)"
  using assms by (auto simp: handle_long_word_def Let_def split: if_splits)

lemma wrap_line_decreases:
  assumes ne: "chunks \<noteq> []" and w: "0 < w"
  shows "chunks_weight (snd (wrap_line w started chunks)) < chunks_weight chunks"
proof -
  define chunks1 where
    "chunks1 = (case chunks of [] \<Rightarrow> [] | c # cs \<Rightarrow> if blank c \<and> started then cs else chunks)"
  obtain cur_line chunks2 where tf: "take_fitting w 0 chunks1 = (cur_line, chunks2)"
    by (cases "take_fitting w 0 chunks1")
  define handled where
    "handled = (case chunks2 of [] \<Rightarrow> (chunks2, cur_line)
                | c # _ \<Rightarrow> if length c > w
                           then handle_long_word chunks2 cur_line (sum_list (map length cur_line)) w
                           else (chunks2, cur_line))"
  have res: "snd (wrap_line w started chunks) = fst handled"
    by (simp add: wrap_line_def Let_def chunks1_def [symmetric] tf handled_def [symmetric]
        split: prod.splits)
  have c1: "chunks_weight chunks1 \<le> chunks_weight chunks"
    using ne by (cases chunks) (simp_all add: chunks1_def)
  have split1: "chunks1 = cur_line @ chunks2" using tf by (rule take_fitting_append)
  have h_le: "chunks_weight (fst handled) \<le> chunks_weight chunks2"
  proof (cases chunks2)
    case Nil
    then show ?thesis by (simp add: handled_def)
  next
    case (Cons c cs)
    show ?thesis
    proof (cases "length c > w")
      case True
      obtain a b where hl: "handle_long_word (c # cs) cur_line (sum_list (map length cur_line)) w = (a, b)"
        by (cases "handle_long_word (c # cs) cur_line (sum_list (map length cur_line)) w")
      from handle_long_word_weight [OF hl] True Cons hl show ?thesis
        by (simp add: handled_def)
    next
      case False
      with Cons show ?thesis by (simp add: handled_def)
    qed
  qed
  show ?thesis
  proof (cases "cur_line = []")
    case False
    then have "0 < chunks_weight cur_line" by (cases cur_line) simp_all
    with split1 have "chunks_weight chunks2 < chunks_weight chunks1" by simp
    with h_le c1 res show ?thesis by simp
  next
    case True
    show ?thesis
    proof (cases chunks2)
      case Nil
      then have "fst handled = []" by (simp add: handled_def)
      moreover have "0 < chunks_weight chunks" using ne by (cases chunks) simp_all
      ultimately show ?thesis using res by simp
    next
      case (Cons c cs)
      from tf True Cons have "\<not> 0 + length c \<le> w" by (auto dest: take_fitting_stuck)
      then have long: "w < length c" by simp
      obtain a b where hl: "handle_long_word (c # cs) [] 0 w = (a, b)"
        by (cases "handle_long_word (c # cs) [] 0 w")
      from handle_long_word_progress [OF hl w long]
      have "chunks_weight a < chunks_weight chunks2" using Cons by simp
      moreover have "fst handled = a" using Cons long True hl by (simp add: handled_def)
      moreover have "chunks_weight chunks2 \<le> chunks_weight chunks1" using split1 by simp
      ultimately show ?thesis using c1 res by simp
    qed
  qed
qed

text \<open>
  The outer loop. \<^verbatim>\<open>_wrap_chunks\<close> raises \<open>ValueError\<close> for a width that is not
  positive before the loop starts, so the loop itself only runs with \<open>0 < w\<close>.
\<close>

function wrap_loop :: "nat \<Rightarrow> string list \<Rightarrow> string list \<Rightarrow> string list" where
  "wrap_loop w lines chunks =
     (if chunks = [] \<or> w = 0 then lines
      else
        (case wrap_line w (lines \<noteq> []) chunks of
           (cur_line, rest) \<Rightarrow>
             wrap_loop w (if cur_line \<noteq> [] then lines @ [concat cur_line] else lines) rest))"
  by pat_completeness auto
termination
proof (relation "measure (\<lambda>(w, lines, chunks). chunks_weight chunks)")
  show "wf (measure (\<lambda>(w, lines, chunks). chunks_weight chunks))" by simp
next
  fix w :: nat and lines chunks :: "string list" and cur_line rest
  assume a: "\<not> (chunks = [] \<or> w = 0)" and b: "(cur_line, rest) = wrap_line w (lines \<noteq> []) chunks"
  from b have "rest = snd (wrap_line w (lines \<noteq> []) chunks)" by (metis snd_conv)
  with wrap_line_decreases [of chunks w "lines \<noteq> []"] a
  have "chunks_weight rest < chunks_weight chunks" by simp
  then show "((w, if cur_line \<noteq> [] then lines @ [concat cur_line] else lines, rest),
              (w, lines, chunks)) \<in> measure (\<lambda>(w, lines, chunks). chunks_weight chunks)"
    by simp
qed

declare wrap_loop.simps [simp del]

definition wrap_chunks :: "int \<Rightarrow> string list \<Rightarrow> exn + string list" where
  "wrap_chunks w chunks =
     (if w \<le> 0 then Inl ValueError else Inr (wrap_loop (nat w) [] chunks))"

text \<open>\<^verbatim>\<open>TextWrapper(width=w).wrap(text)\<close>.\<close>

definition wrap :: "int \<Rightarrow> string \<Rightarrow> exn + string list" where
  "wrap w text = wrap_chunks w (split (munge_whitespace text))"

text \<open>
  Lines 214 and 215: the character budget of a line, \<^verbatim>\<open>int((WINDOW_WIDTH - 100) / 18)\<close>.
\<close>

definition avg_char_width :: int where
  "avg_char_width = 18"

definition max_chars :: "(rat \<Rightarrow> rat) \<Rightarrow> int" where
  "max_chars fl = py_int (fl (of_int (WINDOW_WIDTH - 100) / of_int avg_char_width))"

text \<open>The characters of a string that \<^verbatim>\<open>str.strip\<close> would not remove.\<close>

definition visible :: "string \<Rightarrow> string" where
  "visible s = filter (\<lambda>c. \<not> py_isspace c) s"

text \<open>A string cut into consecutive pieces of \<open>w\<close> characters, the last one possibly shorter.\<close>

function pieces :: "nat \<Rightarrow> string \<Rightarrow> string list" where
  "pieces w s = (if s = [] \<or> w = 0 then [] else take w s # pieces w (drop w s))"
  by pat_completeness auto
termination
  by (relation "measure (\<lambda>(w, s). length s)") auto

declare pieces.simps [simp del]

text \<open>A plain word: no character that counts as whitespace, and no hyphen.\<close>

definition plain_word :: "string \<Rightarrow> bool" where
  "plain_word s \<longleftrightarrow> s \<noteq> [] \<and> list_all (\<lambda>c. \<not> py_isspace c \<and> c \<noteq> hyphen) s"

section \<open>Compositor: fonts, text layout and \<^verbatim>\<open>process_image\<close>\<close>

subsection \<open>The libraries the compositor calls\<close>

text \<open>
  A font object of Pillow: a face loaded from a file at a size, or the built-in font that
  \<^verbatim>\<open>ImageFont.load_default()\<close> returns.
\<close>

datatype font = FreeTypeFont string nat | DefaultFont

text \<open>
  What the compositor needs of its surroundings: the float rounding, what the machine can
  allocate, the image decoder (\<^verbatim>\<open>Image.open\<close> on the bytes), the font loader (\<^verbatim>\<open>ImageFont.truetype\<close>, which raises
  \<open>OSError\<close> when the file cannot be read) and the text measurement \<^verbatim>\<open>draw.textbbox\<close> at
  the origin, which gives integer pixel coordinates \<open>(left, top, right, bottom)\<close>. A font
  argument \<open>None\<close> is legal for Pillow, which then measures and draws with its default font.
  Each of them may raise.
\<close>

record env =
  rounding :: "rat \<Rightarrow> rat"
  allocatable :: "int \<Rightarrow> int \<Rightarrow> bool"
  image_open :: "bytes \<Rightarrow> exn + image"
  truetype :: "string \<Rightarrow> nat \<Rightarrow> exn + font"
  textbbox :: "string \<Rightarrow> font option \<Rightarrow> exn + (int \<times> int \<times> int \<times> int)"

subsection \<open>Font resolution (lines 176 to 207)\<close>

definition font_candidates :: "string list" where
  "font_candidates =
     [''/System/Library/Fonts/HelveticaNeue.ttc'',
      ''/System/Library/Fonts/SFNS.ttf'',
      ''/Library/Fonts/Arial.ttf'',
      ''arial.ttf'',
      ''segoeui.ttf'',
      ''calibri.ttf'',
      ''/usr/share/fonts/truetype/dejavu/DejaVuSans-Bold.ttf'',
      ''/usr/share/fonts/truetype/liberation/LiberationSans-Regular.ttf'']"

text \<open>
  The \<^verbatim>\<open>for font_path in font_candidates\<close> loop, with the current values of
  \<^verbatim>\<open>font_large\<close> and \<^verbatim>\<open>font_small\<close>. The large font is assigned before the small one
  is loaded; \<^verbatim>\<open>except (IOError, OSError): continue\<close> catches \<open>OSError\<close> only, any other
  exception leaves the loop; \<^verbatim>\<open>break\<close> follows the second assignment.
\<close>

fun try_fonts ::
    "(string \<Rightarrow> nat \<Rightarrow> exn + font) \<Rightarrow> string list \<Rightarrow> font option \<Rightarrow> font option
       \<Rightarrow> exn + (font option \<times> font option)" where
  "try_fonts load [] font_large font_small = Inr (font_large, font_small)"
| "try_fonts load (font_path # paths) font_large font_small =
     (case load font_path 36 of
        Inl e \<Rightarrow> if e = OSError then try_fonts load paths font_large font_small else Inl e
      | Inr f36 \<Rightarrow>
          (case load font_path 24 of
             Inl e \<Rightarrow> if e = OSError then try_fonts load paths (Some f36) font_small else Inl e
           | Inr f24 \<Rightarrow> Inr (Some f36, Some f24)))"

text \<open>The loop followed by \<^verbatim>\<open>if font_large is None:\<close> (lines 204 to 207).\<close>

definition resolve_fonts ::
    "(string \<Rightarrow> nat \<Rightarrow> exn + font) \<Rightarrow> exn + (font option \<times> font option)" where
  "resolve_fonts load =
     (case try_fonts load font_candidates None None of
        Inl e \<Rightarrow> Inl e
      | Inr (font_large, font_small) \<Rightarrow>
          if font_large = None then Inr (Some DefaultFont, Some DefaultFont)
          else Inr (font_large, font_small))"

subsection \<open>Text layout and drawing (lines 220 to 263)\<close>

text \<open>
  One call of \<^verbatim>\<open>draw.text\<close>: the position, the string, the font and the fill colour.
  The coordinates are halves of integers. On such numbers every float operation of the
  layout (an integer halved, an integer added) is exact as long as the pixel sizes stay
  below \<open>2 ^ 52\<close>, so the layout is computed in exact rationals.
\<close>

record text_op =
  op_x :: rat
  op_y :: rat
  op_text :: string
  op_font :: "font option"
  op_fill :: "nat \<times> nat \<times> nat \<times> nat"

text \<open>\<^verbatim>\<open>get_text_size\<close> (lines 226 to 231), on a Pillow that has \<^verbatim>\<open>textbbox\<close>.\<close>

definition get_text_size :: "env \<Rightarrow> string \<Rightarrow> font option \<Rightarrow> exn + (int \<times> int)" where
  "get_text_size E txt fnt =
     (case textbbox E txt fnt of
        Inl e \<Rightarrow> Inl e
      | Inr (l, t, r, b) \<Rightarrow> Inr (r - l, b - t))"

text \<open>The first loop (lines 233 to 236): the list \<^verbatim>\<open>line_heights\<close>.\<close>

fun measure_heights :: "env \<Rightarrow> font option \<Rightarrow> string list \<Rightarrow> exn + int list" where
  "measure_heights E fnt [] = Inr []"
| "measure_heights E fnt (line # text_lines) =
     (case get_text_size E line fnt of
        Inl e \<Rightarrow> Inl e
      | Inr (w, h) \<Rightarrow>
          (case measure_heights E fnt text_lines of
             Inl e \<Rightarrow> Inl e
           | Inr hs \<Rightarrow> Inr ((h + 10) # hs)))"

text \<open>
  The drawing loop (lines 245 to 254), from the current \<^verbatim>\<open>current_y\<close>: for each line its
  shadow and the line itself, then \<^verbatim>\<open>current_y += line_heights[i]\<close>. The result is the
  list of \<^verbatim>\<open>draw.text\<close> calls and the final \<^verbatim>\<open>current_y\<close>.
\<close>

fun draw_quote ::
    "env \<Rightarrow> font option \<Rightarrow> rat \<Rightarrow> string list \<Rightarrow> int list \<Rightarrow> exn + (text_op list \<times> rat)" where
  "draw_quote E fnt current_y [] line_heights = Inr ([], current_y)"
| "draw_quote E fnt current_y (line # text_lines) line_heights =
     (case get_text_size E line fnt of
        Inl e \<Rightarrow> Inl e
      | Inr (w, h) \<Rightarrow>
          (let x_pos = of_int (WINDOW_WIDTH - w) / 2;
               shadow = \<lparr>op_x = x_pos + 2, op_y = current_y + 2, op_text = line,
                         op_font = fnt, op_fill = (0, 0, 0, 160)\<rparr>;
               main = \<lparr>op_x = x_pos, op_y = current_y, op_text = line,
                       op_font = fnt, op_fill = (255, 255, 255, 255)\<rparr>
           in case line_heights of
                [] \<Rightarrow> Inl IndexError
              | lh # rest \<Rightarrow>
                  (case draw_quote E fnt (current_y + of_int lh) text_lines rest of
                     Inl e \<Rightarrow> Inl e
                   | Inr (ops, y) \<Rightarrow> Inr (shadow # main # ops, y))))"

text \<open>The two \<^verbatim>\<open>draw.text\<close> calls of a quote line of width \<open>w\<close> drawn at height \<open>y\<close>.\<close>

definition shadow_op :: "font option \<Rightarrow> string \<Rightarrow> int \<Rightarrow> rat \<Rightarrow> text_op" where
  "shadow_op fnt line w y =
     \<lparr>op_x = of_int (WINDOW_WIDTH - w) / 2 + 2, op_y = y + 2, op_text = line,
      op_font = fnt, op_fill = (0, 0, 0, 160)\<rparr>"

definition line_op :: "font option \<Rightarrow> string \<Rightarrow> int \<Rightarrow> rat \<Rightarrow> text_op" where
  "line_op fnt line w y =
     \<lparr>op_x = of_int (WINDOW_WIDTH - w) / 2, op_y = y, op_text = line,
      op_font = fnt, op_fill = (255, 255, 255, 255)\<rparr>"

text \<open>
  What the text block leaves behind: the numbers the code computes on the way and the
  \<^verbatim>\<open>draw.text\<close> calls it makes, in order.
\<close>

record text_block =
  line_heights :: "int list"
  author_height :: int
  total_height :: int
  start_y :: rat
  quote_ops :: "text_op list"
  author_y :: rat
  drawn_author_height :: int
  author_ops :: "text_op list"

text \<open>
  Lines 220 to 263. The author is measured without its prefix for \<^verbatim>\<open>total_height\<close>
  (line 239) and again with the prefix \<^verbatim>\<open>"- "\<close> for drawing (line 259).
\<close>

definition draw_text_block ::
    "env \<Rightarrow> font option \<Rightarrow> font option \<Rightarrow> string list \<Rightarrow> string \<Rightarrow> exn + text_block" where
  "draw_text_block E font_large font_small text_lines author =
     (case measure_heights E font_large text_lines of
        Inl e \<Rightarrow> Inl e
      | Inr hs \<Rightarrow>
          (case get_text_size E author font_small of
             Inl e \<Rightarrow> Inl e
           | Inr (aw0, ah0) \<Rightarrow>
               (let total = sum_list hs + (ah0 + 30);
                    y0 = of_int (WINDOW_HEIGHT - total) / 2
                in case draw_quote E font_large y0 text_lines hs of
                     Inl e \<Rightarrow> Inl e
                   | Inr (ops, y1) \<Rightarrow>
                       (let current_y = y1 + 20;
                            auth_str = ''- '' @ author
                        in case get_text_size E auth_str font_small of
                             Inl e \<Rightarrow> Inl e
                           | Inr (aw, ah) \<Rightarrow>
                               (let ax_pos = of_int (WINDOW_WIDTH - aw) / 2
                                in Inr \<lparr>line_heights = hs,
                                        author_height = ah0,
                                        total_height = total,
                                        start_y = y0,
                                        quote_ops = ops,
                                        author_y = current_y,
                                        drawn_author_height = ah,
                                        author_ops =
                                          [\<lparr>op_x = ax_pos + 1, op_y = current_y + 1,
                                            op_text = auth_str, op_font = font_small,
                                            op_fill = (0, 0, 0, 160)\<rparr>,
                                           \<lparr>op_x = ax_pos, op_y = current_y,
                                            op_text = auth_str, op_font = font_small,
                                            op_fill = (220, 220, 220, 255)\<rparr>]\<rparr>)))))"

subsection \<open>\<^verbatim>\<open>process_image\<close> (lines 137 to 269)\<close>

text \<open>
  The finished picture handed to Tk: its size, the alpha of the dark overlay, the wrapped
  lines, and the text block drawn on it.
\<close>

record frame =
  frame_size :: image
  overlay_alpha :: nat
  frame_lines :: "string list"
  frame_fonts :: "font option \<times> font option"
  frame_text :: text_block

text \<open>
  The quote and the author come from \<^verbatim>\<open>fetch_quote\<close> and are whatever the JSON held.
  \<^verbatim>\<open>wrapper.wrap\<close> starts with \<^verbatim>\<open>text.expandtabs\<close>, which only a string has; Pillow's
  text measurement rejects what is not a string.
\<close>

definition as_text :: "json \<Rightarrow> exn \<Rightarrow> exn + string" where
  "as_text v e = (case v of JStr s \<Rightarrow> Inr s | _ \<Rightarrow> Inl e)"

text \<open>The body of the \<^verbatim>\<open>try\<close> block of \<^verbatim>\<open>process_image\<close>, in the order of the source.\<close>

definition process_image_try :: "env \<Rightarrow> bytes \<Rightarrow> json \<Rightarrow> json \<Rightarrow> exn + frame" where
  "process_image_try E image_data text author =
     (case image_open E image_data of
        Inl e \<Rightarrow> Inl e
      | Inr img \<Rightarrow>
          (case resize_and_crop (rounding E) (allocatable E) img of
             Inl e \<Rightarrow> Inl e
           | Inr sc \<Rightarrow>
               (case resolve_fonts (truetype E) of
                  Inl e \<Rightarrow> Inl e
                | Inr (font_large, font_small) \<Rightarrow>
                    (case as_text text AttributeError of
                       Inl e \<Rightarrow> Inl e
                     | Inr quote \<Rightarrow>
                         (case wrap (max_chars (rounding E)) quote of
                            Inl e \<Rightarrow> Inl e
                          | Inr text_lines \<Rightarrow>
                              (case as_text author TypeError of
                                 Inl e \<Rightarrow> Inl e
                               | Inr author_str \<Rightarrow>
                                   (case draw_text_block E font_large font_small
                                           text_lines author_str of
                                      Inl e \<Rightarrow> Inl e
                                    | Inr tb \<Rightarrow>
                                        Inr \<lparr>frame_size = cropped sc,
                                             overlay_alpha = 100,
                                             frame_lines = text_lines,
                                             frame_fonts = (font_large, font_small),
                                             frame_text = tb\<rparr>)))))))"

text \<open>\<^verbatim>\<open>process_image\<close> with its \<^verbatim>\<open>except Exception\<close> handler: \<open>None\<close> is Python's.\<close>

definition process_image :: "env \<Rightarrow> bytes \<Rightarrow> json \<Rightarrow> json \<Rightarrow> frame option" where
  "process_image E image_data text author =
     (case process_image_try E image_data text author of
        Inl e \<Rightarrow> None
      | Inr f \<Rightarrow> Some f)"

section \<open>Cycle: \<^verbatim>\<open>update_ui\<close> and \<^verbatim>\<open>load_content\<close>\<close>




text \<open>
  The extent of the drawn block: from the \<^verbatim>\<open>current_y\<close> of the first quote line to the
  \<^verbatim>\<open>current_y\<close> of the author line plus the height of the author line as drawn; and the
  middle of that extent.
\<close>

definition block_span :: "text_block \<Rightarrow> rat" where
  "block_span tb = author_y tb + of_int (drawn_author_height tb) - start_y tb"

definition block_middle :: "text_block \<Rightarrow> rat" where
  "block_middle tb = (start_y tb + (author_y tb + of_int (drawn_author_height tb))) / 2"


section \<open>Concrete inputs\<close>

text \<open>A word of 45 letters, one more than a line holds.\<close>

definition long_word :: string where
  "long_word = replicate 45 (CHR ''a'')"

text \<open>
  A text measurement in the manner of Pillow: ten pixels per character, twenty pixels high,
  and the empty box \<open>(0, 0, 0, 0)\<close> for the empty string.
\<close>

definition sample_textbbox :: "string \<Rightarrow> font option \<Rightarrow> exn + (int \<times> int \<times> int \<times> int)" where
  "sample_textbbox txt fnt = Inr (0, 0, 10 * int (length txt), if txt = [] then 0 else 20)"

definition sample_open :: "bytes \<Rightarrow> exn + image" where
  "sample_open b = (if b = sample_bytes then Inr sample_image else Inl UnidentifiedImageError)"

text \<open>A machine without any of the candidate fonts.\<close>

definition no_fonts :: "string \<Rightarrow> nat \<Rightarrow> exn + font" where
  "no_fonts font_path sz = Inl OSError"

text \<open>
  A machine on which the first candidate loads at 36 points and fails at 24 points (a face
  with fixed sizes, or a file that becomes unreadable between the two calls), and no other
  candidate exists.
\<close>

definition half_loading_font :: "string \<Rightarrow> nat \<Rightarrow> exn + font" where
  "half_loading_font font_path sz =
     (if font_path = ''/System/Library/Fonts/HelveticaNeue.ttc'' \<and> sz = 36
      then Inr (FreeTypeFont font_path sz) else Inl OSError)"

definition sample_env :: env where
  "sample_env =
     \<lparr>rounding = exact, allocatable = sample_allocatable, image_open = sample_open,
      truetype = no_fonts, textbbox = sample_textbbox\<rparr>"

text \<open>The same machine, given the bytes of the tall image.\<close>

definition tall_open :: "bytes \<Rightarrow> exn + image" where
  "tall_open b = Inr tall_image"

definition tall_env :: env where
  "tall_env =
     \<lparr>rounding = exact, allocatable = unlimited, image_open = tall_open,
      truetype = no_fonts, textbbox = sample_textbbox\<rparr>"


definition sample_quote :: string where
  "sample_quote = ''Stay focused and never give up.''"


section \<open>Properties of the content fetcher\<close>

lemma fetch_quote_non_200:
  "http QUOTE_API_URL 5 = Inr r \<Longrightarrow> status_code r \<noteq> 200 \<Longrightarrow> fetch_quote http = api_error_pair"
  by (simp add: fetch_quote_def fetch_quote_try_def)

lemma fetch_quote_raised:
  "fetch_quote_try http = Inl e \<Longrightarrow> fetch_quote http = offline_pair"
  by (simp add: fetch_quote_def)

lemma fetch_quote_try_request_raised:
  "http QUOTE_API_URL 5 = Inl e \<Longrightarrow> fetch_quote_try http = Inl e"
  by (simp add: fetch_quote_try_def)

lemma fetch_quote_try_json_raised:
  "http QUOTE_API_URL 5 = Inr r \<Longrightarrow> status_code r = 200 \<Longrightarrow> json_body r = Inl e
     \<Longrightarrow> fetch_quote_try http = Inl e"
  by (simp add: fetch_quote_try_def)

lemma pairs_distinct: "api_error_pair \<noteq> offline_pair"
  by (simp add: api_error_pair_def offline_pair_def)

text \<open>
  Claim C5. \<^verbatim>\<open>fetch_quote\<close> always returns a pair (it is a total function of the HTTP
  client: nothing is raised past it). A response with any status other than 200 gives exactly
  the API-error pair; an exception raised inside the guarded block (by the request, by the
  JSON parser, or by any later step) gives exactly the offline pair; the two pairs are the
  literal ones of the source and differ.
\<close>

theorem fetch_quote_failure_modes:
  "(\<forall>r. http QUOTE_API_URL 5 = Inr r \<and> status_code r \<noteq> 200
        \<longrightarrow> fetch_quote http = api_error_pair)
   \<and> (\<forall>e. http QUOTE_API_URL 5 = Inl e \<longrightarrow> fetch_quote http = offline_pair)
   \<and> (\<forall>r e. http QUOTE_API_URL 5 = Inr r \<and> status_code r = 200 \<and> json_body r = Inl e
        \<longrightarrow> fetch_quote http = offline_pair)
   \<and> (\<forall>e. fetch_quote_try http = Inl e \<longrightarrow> fetch_quote http = offline_pair)
   \<and> api_error_pair
        = (JStr ''The beauty of the world lies in the details.'', JStr ''Default'')
   \<and> offline_pair = (JStr ''Stay focused and never give up.'', JStr ''Offline Mode'')
   \<and> api_error_pair \<noteq> offline_pair"
proof -
  have a: "\<forall>r. http QUOTE_API_URL 5 = Inr r \<and> status_code r \<noteq> 200
             \<longrightarrow> fetch_quote http = api_error_pair"
    using fetch_quote_non_200 by blast
  have b: "\<forall>e. http QUOTE_API_URL 5 = Inl e \<longrightarrow> fetch_quote http = offline_pair"
    using fetch_quote_try_request_raised fetch_quote_raised by blast
  have c: "\<forall>r e. http QUOTE_API_URL 5 = Inr r \<and> status_code r = 200 \<and> json_body r = Inl e
             \<longrightarrow> fetch_quote http = offline_pair"
    using fetch_quote_try_json_raised fetch_quote_raised by blast
  have d: "\<forall>e. fetch_quote_try http = Inl e \<longrightarrow> fetch_quote http = offline_pair"
    using fetch_quote_raised by blast
  have e: "api_error_pair
             = (JStr ''The beauty of the world lies in the details.'', JStr ''Default'')"
    by (simp add: api_error_pair_def)
  have f: "offline_pair = (JStr ''Stay focused and never give up.'', JStr ''Offline Mode'')"
    by (simp add: offline_pair_def)
  from a b c d e f pairs_distinct show ?thesis by blast
qed

theorem fetch_quote_failure_modes_witness:
  "fetch_quote (http_status 500) = api_error_pair
   \<and> fetch_quote http_down = offline_pair
   \<and> fetch_quote (http_status 200) = offline_pair"
proof -
  have s500: "http_status 500 QUOTE_API_URL 5
                = Inr \<lparr>status_code = 500, content = [], json_body = Inl JSONDecodeError\<rparr>"
    by (simp add: http_status_def)
  have s200: "http_status 200 QUOTE_API_URL 5
                = Inr \<lparr>status_code = 200, content = [], json_body = Inl JSONDecodeError\<rparr>"
    by (simp add: http_status_def)
  have dn: "http_down QUOTE_API_URL 5 = Inl ConnectionError"
    by (simp add: http_down_def)
  have 1: "fetch_quote (http_status 500) = api_error_pair"
    using fetch_quote_failure_modes [of "http_status 500"] s500 by simp
  have 2: "fetch_quote http_down = offline_pair"
    using fetch_quote_failure_modes [of http_down] dn by simp
  have 3: "fetch_quote (http_status 200) = offline_pair"
    using fetch_quote_failure_modes [of "http_status 200"] s200 by simp
  from 1 2 3 show ?thesis by simp
qed

text \<open>
  Claim C9. A 200 response whose JSON body is the empty list makes \<^verbatim>\<open>data[0]\<close> raise
  inside the guarded block, so \<^verbatim>\<open>fetch_quote\<close> returns the offline pair, which is not
  the API-error pair although no request failed.
\<close>

theorem fetch_quote_empty_list:
  "fetch_quote http_empty_list = offline_pair
   \<and> fetch_quote http_empty_list
       = (JStr ''Stay focused and never give up.'', JStr ''Offline Mode'')
   \<and> fetch_quote http_empty_list \<noteq> api_error_pair
   \<and> fetch_quote_try http_empty_list = Inl IndexError"
  by (simp add: fetch_quote_def fetch_quote_try_def http_empty_list_def first_if_list_def
      offline_pair_def api_error_pair_def)

text \<open>
  What \<^verbatim>\<open>fetch_image\<close> does, case by case. It never raises (it is total). A 200 from the
  keyworded source returns its bytes after one request. A non-200 status from the keyworded
  source is followed by exactly one request to the blurred unkeyworded source, whose bytes
  are returned when it answers 200, and \<open>None\<close> when it answers anything else or raises.
  An exception raised by the keyworded request returns \<open>None\<close> with no second request.
\<close>

lemma fetch_image_fallback:
  "(\<forall>r. http (loremflickr_url keyword rand_id) 10 = Inr r \<and> status_code r = 200
        \<longrightarrow> fetch_image http rand_id keyword
              = (Some (content r), [loremflickr_url keyword rand_id]))
   \<and> (\<forall>r. http (loremflickr_url keyword rand_id) 10 = Inr r \<and> status_code r \<noteq> 200
        \<longrightarrow> snd (fetch_image http rand_id keyword)
              = [loremflickr_url keyword rand_id, picsum_url rand_id]
            \<and> fst (fetch_image http rand_id keyword)
              = (case http (picsum_url rand_id) 10 of
                   Inl e \<Rightarrow> None
                 | Inr r2 \<Rightarrow> if status_code r2 = 200 then Some (content r2) else None))
   \<and> (\<forall>e. http (loremflickr_url keyword rand_id) 10 = Inl e
        \<longrightarrow> fetch_image http rand_id keyword = (None, [loremflickr_url keyword rand_id]))"
  by (auto simp: fetch_image_def Let_def split: sum.splits)

lemma urls_differ: "loremflickr_url SEARCH_KEYWORD 7 \<noteq> picsum_url 7"
  by (simp add: loremflickr_url_def picsum_url_def)

text \<open>
  The sibling path: with a 404 from the keyworded source, the blurred source is asked and
  its bytes are returned.
\<close>

lemma fetch_image_after_404:
  "fetch_image http_primary_404 7 SEARCH_KEYWORD
     = (Some sample_bytes, [loremflickr_url SEARCH_KEYWORD 7, picsum_url 7])"
  using urls_differ by (simp add: fetch_image_def http_primary_404_def Let_def)

text \<open>
  Claim C2, at a concrete input: the keyworded request times out while the blurred source
  would answer 200 with three bytes. The claim asks for a second request and for those
  bytes; the code, whose two requests share one \<^verbatim>\<open>try\<close> block, returns \<open>None\<close> and
  never issues the second request.
\<close>

theorem fetch_image_primary_raises:
  "http_primary_timeout (loremflickr_url SEARCH_KEYWORD 7) 10 = Inl Timeout
   \<and> http_primary_timeout (picsum_url 7) 10
       = Inr \<lparr>status_code = 200, content = sample_bytes, json_body = Inl JSONDecodeError\<rparr>
   \<and> fst (fetch_image http_primary_timeout 7 SEARCH_KEYWORD) = None
   \<and> fst (fetch_image http_primary_timeout 7 SEARCH_KEYWORD) \<noteq> Some sample_bytes
   \<and> snd (fetch_image http_primary_timeout 7 SEARCH_KEYWORD)
       = [loremflickr_url SEARCH_KEYWORD 7]"
  using urls_differ by (simp add: fetch_image_def http_primary_timeout_def Let_def)

section \<open>Properties of scaling and cropping\<close>

lemma py_round_add_even: "even n \<Longrightarrow> py_round (x + of_int n) = py_round x + n"
  by (simp add: py_round_def Let_def)

lemma py_int_ge: "of_int n \<le> x \<Longrightarrow> 0 \<le> n \<Longrightarrow> n \<le> py_int x"
  by (simp add: py_int_def le_floor_iff)

lemma py_int_le: "0 \<le> x \<Longrightarrow> x \<le> of_int n \<Longrightarrow> py_int x \<le> n"
  by (simp add: py_int_def floor_le_iff)

lemma float_rounding_mono: "float_rounding fl \<Longrightarrow> x \<le> y \<Longrightarrow> fl x \<le> fl y"
  by (simp add: float_rounding_def)

lemma float_rounding_half: "float_rounding fl \<Longrightarrow> \<bar>k\<bar> \<le> 2 ^ 53 \<Longrightarrow> fl (of_int k / 2) = of_int k / 2"
  by (simp add: float_rounding_def)

lemma float_rounding_int:
  assumes "float_rounding fl" and "\<bar>n\<bar> \<le> 2 ^ 52"
  shows "fl (of_int n) = of_int n"
proof -
  have "\<bar>2 * n\<bar> \<le> 2 ^ 53" using assms(2) by simp
  from float_rounding_half [OF assms(1) this] show ?thesis by simp
qed

lemma float_rounding_window_ratio:
  assumes "float_rounding fl"
  shows "fl (of_int WINDOW_WIDTH / of_int WINDOW_HEIGHT) = 3 / 2"
proof -
  have "fl (of_int 3 / 2) = of_int 3 / 2"
    by (rule float_rounding_half [OF assms]) simp
  then show ?thesis by (simp add: WINDOW_WIDTH_def WINDOW_HEIGHT_def)
qed

lemma img_ratio_bounds:
  assumes fl: "float_rounding fl"
    and w: "1 \<le> w" "w \<le> 2 ^ 31" and h: "1 \<le> h" "h \<le> 2 ^ 31"
  shows "1 / 2 ^ 31 \<le> fl (of_int w / of_int h)" and "fl (of_int w / of_int h) \<le> 2 ^ 31"
proof -
  let ?q = "(of_int w / of_int h) :: rat"
  have wr: "(1::rat) \<le> of_int w" "(of_int w :: rat) \<le> 2 ^ 31"
    using w by (simp_all add: of_int_le_numeral_power_cancel_iff)
  have hr: "(1::rat) \<le> of_int h" "(of_int h :: rat) \<le> 2 ^ 31"
    using h by (simp_all add: of_int_le_numeral_power_cancel_iff)
  have lo: "1 / 2 ^ 31 \<le> ?q"
    by (rule frac_le) (use wr hr in simp_all)
  have "?q \<le> 2 ^ 31 / 1"
    by (rule frac_le) (use wr hr in simp_all)
  then have hi: "?q \<le> 2 ^ 31" by simp
  have e31: "fl (of_int (2 ^ 31)) = of_int (2 ^ 31)"
    by (rule float_rounding_int [OF fl]) simp
  have s31: "fl (1 / 2 ^ 31) = 1 / 2 ^ 31"
    using fl by (simp add: float_rounding_def)
  from float_rounding_mono [OF fl lo] s31 show "1 / 2 ^ 31 \<le> fl ?q" by simp
  from float_rounding_mono [OF fl hi] e31 show "fl ?q \<le> 2 ^ 31" by simp
qed


lemma ratio_pos: "(1::rat) / 2 ^ 31 \<le> r \<Longrightarrow> 0 < r"
  by (rule less_le_trans [of _ "1 / 2 ^ 31"]) simp_all

lemma scaled_size_cover:
  assumes fl: "float_rounding fl"
    and w: "1 \<le> width img" "width img \<le> 2 ^ 31"
    and h: "1 \<le> height img" "height img \<le> 2 ^ 31"
  shows "\<exists>nw nh. scaled_size fl img = Inr (nw, nh)
           \<and> WINDOW_WIDTH \<le> nw \<and> WINDOW_HEIGHT \<le> nh
           \<and> nw \<le> 2 ^ 41 \<and> nh \<le> 2 ^ 41
           \<and> (if fl (of_int (width img) / of_int (height img))
                   > fl (of_int WINDOW_WIDTH / of_int WINDOW_HEIGHT)
               then nh = WINDOW_HEIGHT
                 \<and> nw = py_int (fl (of_int WINDOW_HEIGHT
                                       * fl (of_int (width img) / of_int (height img))))
               else nw = WINDOW_WIDTH
                 \<and> nh = py_int (fl (of_int WINDOW_WIDTH
                                       / fl (of_int (width img) / of_int (height img)))))"
proof -
  let ?r = "fl (of_int (width img) / of_int (height img))"
  have wr: "fl (of_int WINDOW_WIDTH / of_int WINDOW_HEIGHT) = 3 / 2"
    by (rule float_rounding_window_ratio [OF fl])
  have rlo: "1 / 2 ^ 31 \<le> ?r" and rhi: "?r \<le> 2 ^ 31"
    using img_ratio_bounds [OF fl w h] by simp_all
  have rpos: "0 < ?r" using rlo by (rule ratio_pos)
  have h0: "height img \<noteq> 0" using h by simp
  show ?thesis
  proof (cases "?r > 3 / 2")
    case True
    let ?x = "fl (of_int WINDOW_HEIGHT * ?r)"
    have "of_int 900 \<le> of_int WINDOW_HEIGHT * ?r"
      using True by (simp add: WINDOW_HEIGHT_def)
    from float_rounding_mono [OF fl this] have "fl (of_int 900) \<le> ?x" .
    moreover have "fl (of_int 900) = of_int 900"
      by (rule float_rounding_int [OF fl]) simp
    ultimately have x_lo: "of_int 900 \<le> ?x" by simp
    have "of_int WINDOW_HEIGHT * ?r \<le> of_int (600 * 2 ^ 31)"
      using rhi by (simp add: WINDOW_HEIGHT_def)
    from float_rounding_mono [OF fl this] have "?x \<le> fl (of_int (600 * 2 ^ 31))" .
    moreover have "fl (of_int (600 * 2 ^ 31)) = of_int (600 * 2 ^ 31)"
      by (rule float_rounding_int [OF fl]) simp
    ultimately have x_hi: "?x \<le> of_int (600 * 2 ^ 31)" by simp
    have n_lo: "900 \<le> py_int ?x" by (rule py_int_ge [OF x_lo]) simp
    have "0 \<le> ?x" using x_lo by simp
    from py_int_le [OF this x_hi] have n_hi: "py_int ?x \<le> 2 ^ 41" by simp
    have eq: "scaled_size fl img = Inr (py_int ?x, WINDOW_HEIGHT)"
      using True h0 wr by (simp add: scaled_size_def Let_def)
    have "WINDOW_WIDTH \<le> py_int ?x" using n_lo by (simp add: WINDOW_WIDTH_def)
    with eq n_hi True wr show ?thesis by (simp add: WINDOW_HEIGHT_def)
  next
    case False
    let ?x = "fl (of_int WINDOW_WIDTH / ?r)"
    have r32: "?r \<le> 3 / 2" using False by simp
    have "of_int 600 * ?r \<le> 900" using r32 by simp
    then have "of_int 600 \<le> of_int WINDOW_WIDTH / ?r"
      using rpos by (simp add: WINDOW_WIDTH_def pos_le_divide_eq)
    from float_rounding_mono [OF fl this] have "fl (of_int 600) \<le> ?x" .
    moreover have "fl (of_int 600) = of_int 600"
      by (rule float_rounding_int [OF fl]) simp
    ultimately have x_lo: "of_int 600 \<le> ?x" by simp
    have "900 \<le> of_int (900 * 2 ^ 31) * ?r"
      using rlo by (simp add: pos_divide_le_eq mult.commute)
    then have "of_int WINDOW_WIDTH / ?r \<le> of_int (900 * 2 ^ 31)"
      using rpos by (simp add: WINDOW_WIDTH_def pos_divide_le_eq)
    from float_rounding_mono [OF fl this] have "?x \<le> fl (of_int (900 * 2 ^ 31))" .
    moreover have "fl (of_int (900 * 2 ^ 31)) = of_int (900 * 2 ^ 31)"
      by (rule float_rounding_int [OF fl]) simp
    ultimately have x_hi: "?x \<le> of_int (900 * 2 ^ 31)" by simp
    have n_lo: "600 \<le> py_int ?x" by (rule py_int_ge [OF x_lo]) simp
    have "0 \<le> ?x" using x_lo by simp
    from py_int_le [OF this x_hi] have n_hi: "py_int ?x \<le> 2 ^ 41" by simp
    have eq: "scaled_size fl img = Inr (WINDOW_WIDTH, py_int ?x)"
      using False h0 wr rpos by (simp add: scaled_size_def Let_def)
    have "WINDOW_HEIGHT \<le> py_int ?x" using n_lo by (simp add: WINDOW_HEIGHT_def)
    with eq n_hi False wr show ?thesis by (simp add: WINDOW_WIDTH_def)
  qed
qed

lemma crop_box_exact:
  assumes fl: "float_rounding fl" and nw: "0 \<le> nw" "nw \<le> 2 ^ 41" and nh: "0 \<le> nh" "nh \<le> 2 ^ 41"
  shows "crop_box fl nw nh =
           (of_int (nw - WINDOW_WIDTH) / 2, of_int (nh - WINDOW_HEIGHT) / 2,
            of_int (nw + WINDOW_WIDTH) / 2, of_int (nh + WINDOW_HEIGHT) / 2)"
proof -
  have 1: "fl (of_int (nw - WINDOW_WIDTH) / 2) = of_int (nw - WINDOW_WIDTH) / 2"
    by (rule float_rounding_half [OF fl]) (use nw in \<open>simp add: WINDOW_WIDTH_def\<close>)
  have 2: "fl (of_int (nh - WINDOW_HEIGHT) / 2) = of_int (nh - WINDOW_HEIGHT) / 2"
    by (rule float_rounding_half [OF fl]) (use nh in \<open>simp add: WINDOW_HEIGHT_def\<close>)
  have 3: "fl (of_int (nw + WINDOW_WIDTH) / 2) = of_int (nw + WINDOW_WIDTH) / 2"
    by (rule float_rounding_half [OF fl]) (use nw in \<open>simp add: WINDOW_WIDTH_def\<close>)
  have 4: "fl (of_int (nh + WINDOW_HEIGHT) / 2) = of_int (nh + WINDOW_HEIGHT) / 2"
    by (rule float_rounding_half [OF fl]) (use nh in \<open>simp add: WINDOW_HEIGHT_def\<close>)
  show ?thesis unfolding crop_box_def by (simp only: 1 2 3 4)
qed

lemma py_round_shift:
  assumes "even c"
  shows "py_round (of_int (n + c) / 2) - py_round (of_int (n - c) / 2) = c"
proof -
  have "(of_int (n + c) / 2 :: rat) = of_int (n - c) / 2 + of_int c"
    by (simp add: field_simps)
  then have "py_round (of_int (n + c) / 2) = py_round (of_int (n - c) / 2 + of_int c)"
    by (simp only:)
  also have "\<dots> = py_round (of_int (n - c) / 2) + c"
    by (rule py_round_add_even [OF assms])
  finally show ?thesis by linarith
qed

lemma crop_exact_size:
  "crop img (of_int (nw - WINDOW_WIDTH) / 2, of_int (nh - WINDOW_HEIGHT) / 2,
             of_int (nw + WINDOW_WIDTH) / 2, of_int (nh + WINDOW_HEIGHT) / 2)
     = Inr \<lparr>width = WINDOW_WIDTH, height = WINDOW_HEIGHT\<rparr>"
proof -
  have a: "py_round (of_int (nw + WINDOW_WIDTH) / 2) - py_round (of_int (nw - WINDOW_WIDTH) / 2)
             = WINDOW_WIDTH"
    by (rule py_round_shift) (simp add: WINDOW_WIDTH_def)
  have b: "py_round (of_int (nh + WINDOW_HEIGHT) / 2) - py_round (of_int (nh - WINDOW_HEIGHT) / 2)
             = WINDOW_HEIGHT"
    by (rule py_round_shift) (simp add: WINDOW_HEIGHT_def)
  have c: "\<not> (of_int (nw + WINDOW_WIDTH) / 2 < (of_int (nw - WINDOW_WIDTH) / 2 :: rat))"
    by (simp add: WINDOW_WIDTH_def)
  have d: "\<not> (of_int (nh + WINDOW_HEIGHT) / 2 < (of_int (nh - WINDOW_HEIGHT) / 2 :: rat))"
    by (simp add: WINDOW_HEIGHT_def)
  show ?thesis by (simp only: crop_def prod.case c d if_False a b)
qed

lemma box_centred:
  assumes "WINDOW_WIDTH \<le> nw" and "WINDOW_HEIGHT \<le> nh"
  shows "(case (of_int (nw - WINDOW_WIDTH) / 2 :: rat, of_int (nh - WINDOW_HEIGHT) / 2 :: rat,
               of_int (nw + WINDOW_WIDTH) / 2 :: rat, of_int (nh + WINDOW_HEIGHT) / 2 :: rat) of
            (left, upper, right, lower) \<Rightarrow>
              left + right = of_int nw \<and> upper + lower = of_int nh
              \<and> left = of_int nw - right \<and> upper = of_int nh - lower
              \<and> 0 \<le> left \<and> 0 \<le> upper \<and> right \<le> of_int nw \<and> lower \<le> of_int nh
              \<and> right - left = of_int WINDOW_WIDTH \<and> lower - upper = of_int WINDOW_HEIGHT)"
  using assms by (simp add: field_simps)

lemma resize_accepts_iff:
  "(\<exists>img2. resize alloc img (nw, nh) = Inr img2)
     \<longleftrightarrow> 0 < nw \<and> 0 < nh \<and> nw < 2 ^ 31 \<and> nh < 2 ^ 31 \<and> alloc nw nh"
  by (auto simp: resize_def)

lemma resize_Inr:
  assumes "resize alloc img (nw, nh) = Inr img2"
  shows "img2 = \<lparr>width = nw, height = nh\<rparr>" and "0 < nw" and "0 < nh"
    and "nw < 2 ^ 31" and "nh < 2 ^ 31"
  using assms by (auto simp: resize_def split: if_splits)

lemma resize_and_crop_rejected:
  assumes "scaled_size fl img = Inr (nw, nh)" and "resize alloc img (nw, nh) = Inl e"
  shows "resize_and_crop fl alloc img = Inl e"
  using assms by (simp add: resize_and_crop_def)

lemma resize_and_crop_accepted:
  assumes fl: "float_rounding fl"
    and sz: "scaled_size fl img = Inr (nw, nh)"
    and rs: "resize alloc img (nw, nh) = Inr img2"
  shows "resize_and_crop fl alloc img
           = Inr \<lparr>scaled = \<lparr>width = nw, height = nh\<rparr>,
                  box = (of_int (nw - WINDOW_WIDTH) / 2, of_int (nh - WINDOW_HEIGHT) / 2,
                         of_int (nw + WINDOW_WIDTH) / 2, of_int (nh + WINDOW_HEIGHT) / 2),
                  cropped = \<lparr>width = WINDOW_WIDTH, height = WINDOW_HEIGHT\<rparr>\<rparr>"
proof -
  note r = resize_Inr [OF rs]
  have b: "0 \<le> nw" "nw \<le> 2 ^ 41" "0 \<le> nh" "nh \<le> 2 ^ 41"
    using r(2-5) by simp_all
  have rs': "resize alloc img (nw, nh) = Inr \<lparr>width = nw, height = nh\<rparr>"
    using rs r(1) by simp
  have bx: "crop_box fl nw nh =
           (of_int (nw - WINDOW_WIDTH) / 2, of_int (nh - WINDOW_HEIGHT) / 2,
            of_int (nw + WINDOW_WIDTH) / 2, of_int (nh + WINDOW_HEIGHT) / 2)"
    by (rule crop_box_exact [OF fl b])
  show ?thesis
    by (simp only: resize_and_crop_def sz rs' bx Let_def fst_conv snd_conv sum.case
        crop_exact_size)
qed


lemma resize_and_crop_cover:
  assumes fl: "float_rounding fl"
    and w: "1 \<le> width img" "width img \<le> 2 ^ 31"
    and h: "1 \<le> height img" "height img \<le> 2 ^ 31"
  shows "\<exists>nw nh. scaled_size fl img = Inr (nw, nh)
           \<and> WINDOW_WIDTH \<le> nw \<and> WINDOW_HEIGHT \<le> nh
           \<and> (if fl (of_int (width img) / of_int (height img))
                   > fl (of_int WINDOW_WIDTH / of_int WINDOW_HEIGHT)
               then nh = WINDOW_HEIGHT
                 \<and> nw = py_int (fl (of_int WINDOW_HEIGHT
                                       * fl (of_int (width img) / of_int (height img))))
               else nw = WINDOW_WIDTH
                 \<and> nh = py_int (fl (of_int WINDOW_WIDTH
                                       / fl (of_int (width img) / of_int (height img)))))
           \<and> ((\<exists>img2. resize alloc img (nw, nh) = Inr img2)
                \<longleftrightarrow> nw < 2 ^ 31 \<and> nh < 2 ^ 31 \<and> alloc nw nh)
           \<and> (case resize alloc img (nw, nh) of
                 Inl e \<Rightarrow> resize_and_crop fl alloc img = Inl e
               | Inr img2 \<Rightarrow>
                   resize_and_crop fl alloc img
                     = Inr \<lparr>scaled = \<lparr>width = nw, height = nh\<rparr>,
                            box = (of_int (nw - WINDOW_WIDTH) / 2,
                                   of_int (nh - WINDOW_HEIGHT) / 2,
                                   of_int (nw + WINDOW_WIDTH) / 2,
                                   of_int (nh + WINDOW_HEIGHT) / 2),
                            cropped = \<lparr>width = WINDOW_WIDTH, height = WINDOW_HEIGHT\<rparr>\<rparr>)
           \<and> (case (of_int (nw - WINDOW_WIDTH) / 2 :: rat,
                     of_int (nh - WINDOW_HEIGHT) / 2 :: rat,
                     of_int (nw + WINDOW_WIDTH) / 2 :: rat,
                     of_int (nh + WINDOW_HEIGHT) / 2 :: rat) of
                 (left, upper, right, lower) \<Rightarrow>
                   left + right = of_int nw \<and> upper + lower = of_int nh
                   \<and> left = of_int nw - right \<and> upper = of_int nh - lower
                   \<and> 0 \<le> left \<and> 0 \<le> upper \<and> right \<le> of_int nw \<and> lower \<le> of_int nh
                   \<and> right - left = of_int WINDOW_WIDTH
                   \<and> lower - upper = of_int WINDOW_HEIGHT)"
proof -
  from scaled_size_cover [OF fl w h] obtain nw nh where
    sz: "scaled_size fl img = Inr (nw, nh)"
    and lo: "WINDOW_WIDTH \<le> nw" "WINDOW_HEIGHT \<le> nh"
    and br: "if fl (of_int (width img) / of_int (height img))
                   > fl (of_int WINDOW_WIDTH / of_int WINDOW_HEIGHT)
               then nh = WINDOW_HEIGHT
                 \<and> nw = py_int (fl (of_int WINDOW_HEIGHT
                                       * fl (of_int (width img) / of_int (height img))))
               else nw = WINDOW_WIDTH
                 \<and> nh = py_int (fl (of_int WINDOW_WIDTH
                                       / fl (of_int (width img) / of_int (height img))))"
    by blast
  have pos: "0 < nw" "0 < nh"
    using lo by (simp_all add: WINDOW_WIDTH_def WINDOW_HEIGHT_def)
  have acc: "(\<exists>img2. resize alloc img (nw, nh) = Inr img2)
                \<longleftrightarrow> nw < 2 ^ 31 \<and> nh < 2 ^ 31 \<and> alloc nw nh"
    using pos by (simp add: resize_accepts_iff)
  have cs: "case resize alloc img (nw, nh) of
                 Inl e \<Rightarrow> resize_and_crop fl alloc img = Inl e
               | Inr img2 \<Rightarrow>
                   resize_and_crop fl alloc img
                     = Inr \<lparr>scaled = \<lparr>width = nw, height = nh\<rparr>,
                            box = (of_int (nw - WINDOW_WIDTH) / 2,
                                   of_int (nh - WINDOW_HEIGHT) / 2,
                                   of_int (nw + WINDOW_WIDTH) / 2,
                                   of_int (nh + WINDOW_HEIGHT) / 2),
                            cropped = \<lparr>width = WINDOW_WIDTH, height = WINDOW_HEIGHT\<rparr>\<rparr>"
  proof (cases "resize alloc img (nw, nh)")
    case (Inl e)
    with resize_and_crop_rejected [OF sz Inl] show ?thesis by simp
  next
    case (Inr img2)
    with resize_and_crop_accepted [OF fl sz Inr] show ?thesis by simp
  qed
  note bc = box_centred [OF lo]
  show ?thesis
    by (rule exI [of _ nw], rule exI [of _ nh], rule conjI [OF sz], rule conjI [OF lo(1)],
        rule conjI [OF lo(2)], rule conjI [OF br], rule conjI [OF acc], rule conjI [OF cs],
        rule bc)
qed

lemma float_rounding_exact: "float_rounding exact"
  by (simp add: float_rounding_def exact_def)

text \<open>
  Claim C1, at a concrete input: a decodable image of 1 by 3000000 pixels. Its ratio is
  below the canvas's, so it is scaled to width 900 and height 2700000000, a height that
  \<^verbatim>\<open>Image.resize\<close> rejects with \<open>OverflowError\<close>: the step produces no output and
  \<^verbatim>\<open>process_image\<close> returns \<open>None\<close>.
\<close>

theorem resize_and_crop_tall_counterexample:
  "width tall_image = 1
   \<and> height tall_image = 3000000
   \<and> scaled_size exact tall_image = Inr (900, 2700000000)
   \<and> resize_and_crop exact unlimited tall_image = Inl OverflowError
   \<and> process_image tall_env sample_bytes (JStr sample_quote) (JStr ''Me'') = None"
proof -
  have a: "scaled_size exact tall_image = Inr (900, 2700000000)" by code_simp
  have b: "resize_and_crop exact unlimited tall_image = Inl OverflowError"
    by (simp add: resize_and_crop_def a resize_def)
  have c: "process_image tall_env sample_bytes (JStr sample_quote) (JStr ''Me'') = None"
    by (simp add: process_image_def process_image_try_def tall_env_def tall_open_def b)
  from a b c show ?thesis by (simp add: tall_image_def)
qed

text \<open>
  Claim C1, amended. For every decoded image whose sides are between 1 and \<open>2 ^ 31\<close>
  pixels, and every float rounding, the size the image is scaled to is at least the canvas
  on both axes: when the image's ratio exceeds the canvas's it has the canvas's height (and
  the width that ratio gives), otherwise the canvas's width. \<^verbatim>\<open>Image.resize\<close> accepts that
  size exactly when both sides are below \<open>2 ^ 31\<close> and the image can be allocated. When it
  does, the step succeeds, the resized image has that size, and the cropped image is exactly
  \<open>WINDOW_WIDTH\<close> by \<open>WINDOW_HEIGHT\<close>; when it does not, the step raises what
  \<^verbatim>\<open>Image.resize\<close> raised. The crop box is centred on both axes (its left margin equals
  its right margin, its upper margin its lower one), lies inside the resized image, and
  spans the canvas.
\<close>

theorem resize_and_crop_exact:
  assumes fl: "float_rounding fl"
    and w: "1 \<le> width img" "width img \<le> 2 ^ 31"
    and h: "1 \<le> height img" "height img \<le> 2 ^ 31"
  shows "\<exists>nw nh. scaled_size fl img = Inr (nw, nh)
           \<and> WINDOW_WIDTH \<le> nw \<and> WINDOW_HEIGHT \<le> nh
           \<and> (if fl (of_int (width img) / of_int (height img))
                   > fl (of_int WINDOW_WIDTH / of_int WINDOW_HEIGHT)
               then nh = WINDOW_HEIGHT
                 \<and> nw = py_int (fl (of_int WINDOW_HEIGHT
                                       * fl (of_int (width img) / of_int (height img))))
               else nw = WINDOW_WIDTH
                 \<and> nh = py_int (fl (of_int WINDOW_WIDTH
                                       / fl (of_int (width img) / of_int (height img)))))
           \<and> ((\<exists>img2. resize alloc img (nw, nh) = Inr img2)
                \<longleftrightarrow> nw < 2 ^ 31 \<and> nh < 2 ^ 31 \<and> alloc nw nh)
           \<and> (case resize alloc img (nw, nh) of
                 Inl e \<Rightarrow> resize_and_crop fl alloc img = Inl e
               | Inr img2 \<Rightarrow>
                   resize_and_crop fl alloc img
                     = Inr \<lparr>scaled = \<lparr>width = nw, height = nh\<rparr>,
                            box = (of_int (nw - WINDOW_WIDTH) / 2,
                                   of_int (nh - WINDOW_HEIGHT) / 2,
                                   of_int (nw + WINDOW_WIDTH) / 2,
                                   of_int (nh + WINDOW_HEIGHT) / 2),
                            cropped = \<lparr>width = WINDOW_WIDTH, height = WINDOW_HEIGHT\<rparr>\<rparr>)
           \<and> (case (of_int (nw - WINDOW_WIDTH) / 2 :: rat,
                     of_int (nh - WINDOW_HEIGHT) / 2 :: rat,
                     of_int (nw + WINDOW_WIDTH) / 2 :: rat,
                     of_int (nh + WINDOW_HEIGHT) / 2 :: rat) of
                 (left, upper, right, lower) \<Rightarrow>
                   left + right = of_int nw \<and> upper + lower = of_int nh
                   \<and> left = of_int nw - right \<and> upper = of_int nh - lower
                   \<and> 0 \<le> left \<and> 0 \<le> upper \<and> right \<le> of_int nw \<and> lower \<le> of_int nh
                   \<and> right - left = of_int WINDOW_WIDTH
                   \<and> lower - upper = of_int WINDOW_HEIGHT)"
  using fl w h by (rule resize_and_crop_cover)

theorem resize_and_crop_exact_witness:
  "float_rounding exact
   \<and> resize_and_crop exact sample_allocatable sample_image
       = Inr \<lparr>scaled = \<lparr>width = 900, height = 629\<rparr>,
              box = (0, 29 / 2, 900, 1229 / 2),
              cropped = \<lparr>width = 900, height = 600\<rparr>\<rparr>"
proof -
  have d: "1 \<le> width sample_image" "width sample_image \<le> 2 ^ 31"
      "1 \<le> height sample_image" "height sample_image \<le> 2 ^ 31"
    by (simp_all add: sample_image_def)
  have ev: "scaled_size exact sample_image = Inr (900, 629)" by code_simp
  have rs: "resize sample_allocatable sample_image (900, 629)
              = Inr \<lparr>width = 900, height = 629\<rparr>"
    by (simp add: resize_def sample_allocatable_def)
  from resize_and_crop_exact [OF float_rounding_exact d, of sample_allocatable]
  obtain nw nh where sz: "scaled_size exact sample_image = Inr (nw, nh)"
    and cs: "case resize sample_allocatable sample_image (nw, nh) of
                 Inl e \<Rightarrow> resize_and_crop exact sample_allocatable sample_image = Inl e
               | Inr img2 \<Rightarrow>
                   resize_and_crop exact sample_allocatable sample_image
                     = Inr \<lparr>scaled = \<lparr>width = nw, height = nh\<rparr>,
                            box = (of_int (nw - WINDOW_WIDTH) / 2,
                                   of_int (nh - WINDOW_HEIGHT) / 2,
                                   of_int (nw + WINDOW_WIDTH) / 2,
                                   of_int (nh + WINDOW_HEIGHT) / 2),
                            cropped = \<lparr>width = WINDOW_WIDTH, height = WINDOW_HEIGHT\<rparr>\<rparr>"
    by blast
  from sz ev have n: "nw = 900" "nh = 629" by simp_all
  from cs n rs have "resize_and_crop exact sample_allocatable sample_image
       = Inr \<lparr>scaled = \<lparr>width = 900, height = 629\<rparr>,
              box = (0, 29 / 2, 900, 1229 / 2),
              cropped = \<lparr>width = 900, height = 600\<rparr>\<rparr>"
    by (simp add: WINDOW_WIDTH_def WINDOW_HEIGHT_def)
  with float_rounding_exact show ?thesis by simp
qed

section \<open>Properties of the word wrapper\<close>

lemma max_chars_44:
  assumes fl: "float_rounding fl"
  shows "max_chars fl = 44"
proof -
  have mono: "\<And>x y. x \<le> y \<Longrightarrow> fl x \<le> fl y" using fl by (simp add: float_rounding_def)
  have half: "\<And>k::int. \<bar>k\<bar> \<le> 2 ^ 53 \<Longrightarrow> fl (of_int k / 2) = of_int k / 2"
    using fl by (simp add: float_rounding_def)
  have e44: "fl 44 = 44" using half [of 88] by simp
  have e89: "fl (89 / 2) = 89 / 2" using half [of 89] by simp
  let ?x = "fl (of_int (WINDOW_WIDTH - 100) / of_int avg_char_width)"
  have "44 \<le> ?x" using mono [of 44 "of_int (WINDOW_WIDTH - 100) / of_int avg_char_width"] e44
    by (simp add: WINDOW_WIDTH_def avg_char_width_def)
  moreover have "?x \<le> 89 / 2"
    using mono [of "of_int (WINDOW_WIDTH - 100) / of_int avg_char_width" "89 / 2"] e89
    by (simp add: WINDOW_WIDTH_def avg_char_width_def)
  ultimately have "\<lfloor>?x\<rfloor> = 44" by (simp add: floor_unique)
  moreover have "0 \<le> ?x" using \<open>44 \<le> ?x\<close> by simp
  ultimately show ?thesis by (simp add: max_chars_def py_int_def)
qed

lemma sum_list_butlast_le: "sum_list (map length (butlast xs)) \<le> sum_list (map length xs)"
  by (induction xs) auto

lemma rfind_hyphen_less: "rfind_hyphen c b < int b \<or> rfind_hyphen c b = - 1"
proof (cases "filter (\<lambda>i. c ! i = hyphen) (rev [0 ..< min b (length c)])")
  case Nil
  then show ?thesis by (simp add: rfind_hyphen_def)
next
  case (Cons i js)
  then have "i \<in> set (filter (\<lambda>i. c ! i = hyphen) (rev [0 ..< min b (length c)]))" by simp
  then have "i < b" by simp
  with Cons show ?thesis by (simp add: rfind_hyphen_def)
qed

lemma handle_long_word_fits:
  assumes h: "handle_long_word (c # rest) l n w = (chunks', l')" and w: "0 < w" and n: "n \<le> w"
    and l: "sum_list (map length l) = n"
  shows "sum_list (map length l') \<le> w"
proof -
  define stop where
    "stop = (if length c > w - n \<and> rfind_hyphen c (w - n) > 0
                \<and> list_ex (\<lambda>x. x \<noteq> hyphen) (take (nat (rfind_hyphen c (w - n))) c)
             then nat (rfind_hyphen c (w - n)) + 1 else w - n)"
  have st: "stop \<le> w - n"
    using rfind_hyphen_less [of c "w - n"] by (auto simp: stop_def)
  have "l' = l @ [take stop c]"
    using h w by (simp add: handle_long_word_def Let_def stop_def)
  then have "sum_list (map length l') = n + min (length c) stop" using l by simp
  with st n show ?thesis by simp
qed

lemma wrap_line_fits:
  assumes w: "0 < w"
  shows "sum_list (map length (fst (wrap_line w started chunks))) \<le> w"
proof -
  define chunks1 where
    "chunks1 = (case chunks of [] \<Rightarrow> [] | c # cs \<Rightarrow> if blank c \<and> started then cs else chunks)"
  obtain cur_line chunks2 where tf: "take_fitting w 0 chunks1 = (cur_line, chunks2)"
    by (cases "take_fitting w 0 chunks1")
  define handled where
    "handled = (case chunks2 of [] \<Rightarrow> (chunks2, cur_line)
                | c # _ \<Rightarrow> if length c > w
                           then handle_long_word chunks2 cur_line (sum_list (map length cur_line)) w
                           else (chunks2, cur_line))"
  have res: "fst (wrap_line w started chunks)
               = (if snd handled \<noteq> [] \<and> blank (last (snd handled))
                  then butlast (snd handled) else snd handled)"
    by (simp add: wrap_line_def Let_def chunks1_def [symmetric] tf handled_def [symmetric]
        split: prod.splits)
  from take_fitting_fits [OF tf] have fit: "sum_list (map length cur_line) \<le> w" by simp
  have hf: "sum_list (map length (snd handled)) \<le> w"
  proof (cases chunks2)
    case Nil
    with fit show ?thesis by (simp add: handled_def)
  next
    case (Cons c cs)
    show ?thesis
    proof (cases "length c > w")
      case True
      obtain a b where hl:
        "handle_long_word (c # cs) cur_line (sum_list (map length cur_line)) w = (a, b)"
        by (cases "handle_long_word (c # cs) cur_line (sum_list (map length cur_line)) w")
      from handle_long_word_fits [OF hl w fit refl] True Cons hl show ?thesis
        by (simp add: handled_def)
    next
      case False
      with Cons fit show ?thesis by (simp add: handled_def)
    qed
  qed
  have "sum_list (map length (butlast (snd handled))) \<le> sum_list (map length (snd handled))"
    by (rule sum_list_butlast_le)
  with hf res show ?thesis by simp
qed

lemma wrap_loop_lines_fit:
  assumes "\<forall>line \<in> set lines. length line \<le> w"
  shows "\<forall>line \<in> set (wrap_loop w lines chunks). length line \<le> w"
  using assms
proof (induction w lines chunks rule: wrap_loop.induct)
  case (1 w lines chunks)
  show ?case
  proof (cases "chunks = [] \<or> w = 0")
    case True
    with "1.prems" show ?thesis by (simp add: wrap_loop.simps)
  next
    case False
    obtain cur_line rest where wl: "wrap_line w (lines \<noteq> []) chunks = (cur_line, rest)"
      by (cases "wrap_line w (lines \<noteq> []) chunks")
    from False have w: "0 < w" by simp
    from wrap_line_fits [OF w, of "lines \<noteq> []" chunks] wl
    have "length (concat cur_line) \<le> w" by (simp add: length_concat)
    with "1.prems"
    have pre: "\<forall>line \<in> set (if cur_line \<noteq> [] then lines @ [concat cur_line] else lines).
                 length line \<le> w"
      by auto
    from "1.IH" [OF False wl [symmetric] pre] False wl show ?thesis
      by (simp add: wrap_loop.simps [of w lines chunks])
  qed
qed

lemma wrap_lines_fit:
  assumes a: "wrap w text = Inr text_lines" and b: "line \<in> set text_lines"
  shows "int (length line) \<le> w"
proof -
  from a have pos: "0 < w"
    and eq: "text_lines = wrap_loop (nat w) [] (split (munge_whitespace text))"
    by (auto simp: wrap_def wrap_chunks_def split: if_splits)
  have "\<forall>line \<in> set (wrap_loop (nat w) [] (split (munge_whitespace text))).
          length line \<le> nat w"
    by (rule wrap_loop_lines_fit) simp
  with eq b have "length line \<le> nat w" by simp
  with pos show ?thesis by simp
qed

lemma wrap_total: "0 < w \<Longrightarrow> \<exists>text_lines. wrap w text = Inr text_lines"
  by (simp add: wrap_def wrap_chunks_def)

lemma tw_whitespace_isspace: "tw_whitespace c \<Longrightarrow> py_isspace c"
  by (auto simp: tw_whitespace_def py_isspace_def)

lemma isspace_space: "py_isspace space"
  by (simp add: py_isspace_def space_def char_code_def)

lemma visible_simps [simp]:
  "visible [] = []"
  "visible (xs @ ys) = visible xs @ visible ys"
  "visible (c # cs) = (if py_isspace c then visible cs else c # visible cs)"
  by (simp_all add: visible_def)

lemma visible_replicate_space: "visible (replicate n space) = []"
  by (induction n) (simp_all add: isspace_space)

lemma visible_expandtabs: "visible (expandtabs col s) = visible s"
proof (induction s arbitrary: col)
  case Nil
  show ?case by simp
next
  case (Cons c cs)
  have tab: "char_code c = 9 \<Longrightarrow> py_isspace c" by (simp add: py_isspace_def)
  show ?case using Cons tab by (simp add: visible_replicate_space)
qed

lemma visible_map_space:
  "visible (map (\<lambda>c. if tw_whitespace c then space else c) s) = visible s"
  by (induction s) (auto simp: isspace_space tw_whitespace_isspace)

lemma visible_munge: "visible (munge_whitespace s) = visible s"
  by (simp add: munge_whitespace_def visible_map_space visible_expandtabs)

lemma word_rest_append: "word_rest seen cs = (chunk, rest) \<Longrightarrow> chunk @ rest = cs"
proof (induction cs arbitrary: seen chunk rest)
  case Nil
  then show ?case by simp
next
  case (Cons c cs)
  obtain chunk' rest' where w: "word_rest (c # seen) cs = (chunk', rest')"
    by (cases "word_rest (c # seen) cs")
  from Cons.IH [OF w] have "chunk' @ rest' = cs" .
  with Cons.prems w show ?case by (auto split: if_splits)
qed

lemma chunk_rest_append: "chunk_rest seen c cs = (chunk, rest) \<Longrightarrow> chunk @ rest = cs"
  by (auto simp: chunk_rest_def split: if_splits dest: word_rest_append)

lemma concat_split_from: "concat (split_from seen s) = s"
proof (induction seen s rule: split_from.induct)
  case (1 seen)
  show ?case by simp
next
  case (2 seen c cs)
  obtain chunk rest where cr: "chunk_rest seen c cs = (chunk, rest)"
    by (cases "chunk_rest seen c cs")
  from "2.IH" [OF cr [symmetric]] have "concat (split_from (rev (c # chunk) @ seen) rest) = rest" .
  with cr chunk_rest_append [OF cr] show ?case by simp
qed

lemma concat_nonempty: "concat (filter (\<lambda>c. c \<noteq> []) xs) = concat xs"
  by (induction xs) auto

lemma concat_split: "concat (split s) = s"
  by (simp add: split_def concat_nonempty concat_split_from)

lemma visible_blank: "blank c \<Longrightarrow> visible c = []"
  by (induction c) (auto simp: blank_def)

lemma handle_long_word_concat:
  assumes "handle_long_word (c # rest) l n w = (chunks', l')"
  shows "concat l' @ concat chunks' = concat l @ concat (c # rest)"
  using assms by (auto simp: handle_long_word_def Let_def split: if_splits)

lemma visible_concat_butlast:
  assumes "xs \<noteq> []" and "blank (last xs)"
  shows "visible (concat (butlast xs)) = visible (concat xs)"
proof -
  from assms(1) have "xs = butlast xs @ [last xs]" by simp
  then have "concat xs = concat (butlast xs) @ last xs"
    by (metis concat.simps concat_append append_Nil2)
  with visible_blank [OF assms(2)] show ?thesis by simp
qed

lemma wrap_line_visible:
  "visible (concat (fst (wrap_line w started chunks)) @ concat (snd (wrap_line w started chunks)))
     = visible (concat chunks)"
proof -
  define chunks1 where
    "chunks1 = (case chunks of [] \<Rightarrow> [] | c # cs \<Rightarrow> if blank c \<and> started then cs else chunks)"
  obtain cur_line chunks2 where tf: "take_fitting w 0 chunks1 = (cur_line, chunks2)"
    by (cases "take_fitting w 0 chunks1")
  define handled where
    "handled = (case chunks2 of [] \<Rightarrow> (chunks2, cur_line)
                | c # _ \<Rightarrow> if length c > w
                           then handle_long_word chunks2 cur_line (sum_list (map length cur_line)) w
                           else (chunks2, cur_line))"
  have res: "wrap_line w started chunks
               = (if snd handled \<noteq> [] \<and> blank (last (snd handled))
                  then (butlast (snd handled), fst handled) else (snd handled, fst handled))"
    by (simp add: wrap_line_def Let_def chunks1_def [symmetric] tf handled_def [symmetric]
        split: prod.splits)
  have c1: "visible (concat chunks1) = visible (concat chunks)"
    by (cases chunks) (simp_all add: chunks1_def visible_blank)
  have sp: "chunks1 = cur_line @ chunks2" using tf by (rule take_fitting_append)
  have h: "concat (snd handled) @ concat (fst handled) = concat cur_line @ concat chunks2"
  proof (cases chunks2)
    case Nil
    then show ?thesis by (simp add: handled_def)
  next
    case (Cons c cs)
    show ?thesis
    proof (cases "length c > w")
      case True
      obtain a b where hl:
        "handle_long_word (c # cs) cur_line (sum_list (map length cur_line)) w = (a, b)"
        by (cases "handle_long_word (c # cs) cur_line (sum_list (map length cur_line)) w")
      from handle_long_word_concat [OF hl] True Cons hl show ?thesis
        by (simp add: handled_def)
    next
      case False
      with Cons show ?thesis by (simp add: handled_def)
    qed
  qed
  have "visible (concat (fst (wrap_line w started chunks)))
          = visible (concat (snd handled))"
    using res by (simp add: visible_concat_butlast)
  moreover have "snd (wrap_line w started chunks) = fst handled" using res by simp
  ultimately have "visible (concat (fst (wrap_line w started chunks))
                      @ concat (snd (wrap_line w started chunks)))
                     = visible (concat (snd handled) @ concat (fst handled))"
    by simp
  also have "\<dots> = visible (concat chunks1)" using h sp by simp
  finally show ?thesis using c1 by simp
qed

lemma wrap_loop_visible:
  assumes "0 < w"
  shows "visible (concat (wrap_loop w lines chunks)) = visible (concat lines @ concat chunks)"
  using assms
proof (induction w lines chunks rule: wrap_loop.induct)
  case (1 w lines chunks)
  show ?case
  proof (cases "chunks = []")
    case True
    then show ?thesis by (simp add: wrap_loop.simps)
  next
    case False
    with "1.prems" have ne: "\<not> (chunks = [] \<or> w = 0)" by simp
    obtain cur_line rest where wl: "wrap_line w (lines \<noteq> []) chunks = (cur_line, rest)"
      by (cases "wrap_line w (lines \<noteq> []) chunks")
    from wrap_line_visible [of w "lines \<noteq> []" chunks] wl
    have v: "visible (concat cur_line @ concat rest) = visible (concat chunks)" by simp
    have "wrap_loop w lines chunks
            = wrap_loop w (if cur_line \<noteq> [] then lines @ [concat cur_line] else lines) rest"
      using ne wl by (simp add: wrap_loop.simps [of w lines chunks])
    also have "visible (concat \<dots>)
                 = visible (concat (if cur_line \<noteq> [] then lines @ [concat cur_line] else lines)
                            @ concat rest)"
      by (rule "1.IH" [OF ne wl [symmetric] "1.prems"])
    also have "\<dots> = visible (concat lines @ concat cur_line @ concat rest)"
      by (cases "cur_line = []") simp_all
    also have "\<dots> = visible (concat lines @ concat chunks)" using v by simp
    finally show ?thesis .
  qed
qed

lemma wrap_visible:
  assumes "wrap w text = Inr text_lines"
  shows "visible (concat text_lines) = visible text"
proof -
  from assms have pos: "0 < w"
    and eq: "text_lines = wrap_loop (nat w) [] (split (munge_whitespace text))"
    by (auto simp: wrap_def wrap_chunks_def split: if_splits)
  from pos have "0 < nat w" by simp
  from wrap_loop_visible [OF this, of "[]" "split (munge_whitespace text)"] eq
  show ?thesis by (simp add: concat_split visible_munge)
qed

lemma visible_id: "\<forall>c \<in> set s. \<not> py_isspace c \<Longrightarrow> visible s = s"
  by (induction s) auto

lemma plain_word_chars:
  "plain_word s \<Longrightarrow> c \<in> set s \<Longrightarrow> \<not> py_isspace c \<and> \<not> tw_whitespace c \<and> c \<noteq> hyphen"
  by (auto simp: plain_word_def list_all_iff dest: tw_whitespace_isspace)

lemma emdash_ahead_no_hyphen: "c \<noteq> hyphen \<Longrightarrow> \<not> emdash_ahead (c # cs)"
  by (simp add: emdash_ahead_def)

lemma word_rest_plain:
  "\<forall>c \<in> set cs. \<not> tw_whitespace c \<and> c \<noteq> hyphen \<Longrightarrow> word_rest seen cs = (cs, [])"
  by (induction cs arbitrary: seen) (simp_all add: emdash_ahead_no_hyphen)

lemma split_plain:
  assumes "plain_word s"
  shows "split s = [s]"
proof -
  from assms obtain c cs where s: "s = c # cs" by (cases s) (auto simp: plain_word_def)
  from plain_word_chars [OF assms] s
  have c: "\<not> tw_whitespace c" "c \<noteq> hyphen"
    and cs: "\<forall>x \<in> set cs. \<not> tw_whitespace x \<and> x \<noteq> hyphen"
    by auto
  have "chunk_rest [] c cs = (cs, [])"
    using c by (simp add: chunk_rest_def emdash_ahead_no_hyphen word_rest_plain [OF cs])
  then show ?thesis using s by (simp add: split_def)
qed

lemma expandtabs_no_tab: "\<forall>c \<in> set s. char_code c \<noteq> 9 \<Longrightarrow> expandtabs col s = s"
  by (induction s arbitrary: col) auto

lemma munge_plain:
  assumes "plain_word s"
  shows "munge_whitespace s = s"
proof -
  have a: "\<forall>c \<in> set s. char_code c \<noteq> 9"
  proof
    fix c assume "c \<in> set s"
    with plain_word_chars [OF assms] have "\<not> py_isspace c" by blast
    then show "char_code c \<noteq> 9" by (auto simp: py_isspace_def)
  qed
  have b: "\<forall>c \<in> set s. \<not> tw_whitespace c" using plain_word_chars [OF assms] by auto
  have "map (\<lambda>c. if tw_whitespace c then space else c) s = s"
    using b by (induction s) auto
  then show ?thesis by (simp add: munge_whitespace_def expandtabs_no_tab [OF a])
qed

lemma plain_not_blank: "plain_word s \<Longrightarrow> \<not> blank s"
  by (cases s) (auto simp: plain_word_def blank_def)

lemma plain_take: "plain_word s \<Longrightarrow> 0 < w \<Longrightarrow> plain_word (take w s)"
  by (cases s; cases w) (auto simp: plain_word_def list_all_iff dest: in_set_takeD)

lemma plain_drop: "plain_word s \<Longrightarrow> w < length s \<Longrightarrow> plain_word (drop w s)"
  by (auto simp: plain_word_def list_all_iff dest: in_set_dropD)

lemma rfind_hyphen_plain: "plain_word s \<Longrightarrow> rfind_hyphen s b = - 1"
proof -
  assume p: "plain_word s"
  have "filter (\<lambda>i. s ! i = hyphen) (rev [0 ..< min b (length s)]) = []"
    using plain_word_chars [OF p] by (auto simp: filter_empty_conv)
  then show ?thesis by (simp add: rfind_hyphen_def)
qed

lemma wrap_line_short:
  assumes p: "plain_word s" and l: "length s \<le> w"
  shows "wrap_line w started [s] = ([s], [])"
  using plain_not_blank [OF p] l by (simp add: wrap_line_def Let_def)

lemma wrap_line_long:
  assumes p: "plain_word s" and w: "0 < w" and l: "w < length s"
  shows "wrap_line w started [s] = ([take w s], [drop w s])"
proof -
  have nb: "\<not> blank s" by (rule plain_not_blank [OF p])
  have nbt: "\<not> blank (take w s)" by (rule plain_not_blank [OF plain_take [OF p w]])
  have tf: "take_fitting w 0 [s] = ([], [s])" using l by simp
  have hl: "handle_long_word [s] [] 0 w = ([drop w s], [take w s])"
    using w by (simp add: handle_long_word_def Let_def rfind_hyphen_plain [OF p])
  show ?thesis using nb nbt l by (simp add: wrap_line_def Let_def tf hl)
qed

lemma wrap_loop_plain:
  assumes "plain_word s" and "0 < w"
  shows "wrap_loop w lines [s] = lines @ pieces w s"
  using assms
proof (induction "length s" arbitrary: s lines rule: less_induct)
  case less
  note p = less.prems(1) and w = less.prems(2)
  from p have ne: "s \<noteq> []" by (simp add: plain_word_def)
  show ?case
  proof (cases "length s \<le> w")
    case True
    have "wrap_loop w lines [s] = wrap_loop w (lines @ [s]) []"
      using w by (simp add: wrap_loop.simps [of w lines "[s]"] wrap_line_short [OF p True])
    also have "\<dots> = lines @ [s]" by (simp add: wrap_loop.simps)
    finally have a: "wrap_loop w lines [s] = lines @ [s]" .
    have "pieces w s = [s]"
      using ne w True by (simp add: pieces.simps [of w s] pieces.simps [of w "[]"])
    with a show ?thesis by simp
  next
    case False
    then have l: "w < length s" by simp
    have pd: "plain_word (drop w s)" by (rule plain_drop [OF p l])
    have shorter: "length (drop w s) < length s" using w l by simp
    have "wrap_loop w lines [s] = wrap_loop w (lines @ [take w s]) [drop w s]"
      using w by (simp add: wrap_loop.simps [of w lines "[s]"] wrap_line_long [OF p w l])
    also have "\<dots> = (lines @ [take w s]) @ pieces w (drop w s)"
      by (rule less.hyps [OF shorter pd w])
    also have "\<dots> = lines @ pieces w s"
      using ne w by (simp add: pieces.simps [of w s])
    finally show ?thesis .
  qed
qed

lemma wrap_plain_word:
  assumes "plain_word s" and "0 < w"
  shows "wrap w s = Inr (pieces (nat w) s)"
  using assms wrap_loop_plain [of s "nat w" "[]"]
  by (simp add: wrap_def wrap_chunks_def munge_plain split_plain)

text \<open>
  Claim C3, at a concrete input: a quote that is one word of 45 letters, with the wrap width
  44 of the program. The claim leaves the word whole on a line of its own; the wrapper cuts
  it after 44 letters and puts the last letter on a second line.
\<close>

theorem wrap_long_word_counterexample:
  "length long_word = 45
   \<and> max_chars exact = 44
   \<and> wrap (max_chars exact) long_word = Inr [replicate 44 (CHR ''a''), ''a'']
   \<and> wrap (max_chars exact) long_word \<noteq> Inr [long_word]"
proof -
  have m: "max_chars exact = 44" by (rule max_chars_44 [OF float_rounding_exact])
  have l: "length long_word = 45" by (simp add: long_word_def)
  have w: "wrap 44 long_word = Inr [replicate 44 (CHR ''a''), ''a'']" by code_simp
  have n: "[replicate 44 (CHR ''a''), ''a''] \<noteq> [long_word]" by simp
  from m l w n show ?thesis by simp
qed

text \<open>
  Claim C3, amended. The wrapper is called with \<^verbatim>\<open>break_long_words\<close> at its default, true.
  For every quote text it returns lines (it does not raise); no line is longer than the wrap
  width of 44 characters; the lines, read one after the other, hold exactly the characters
  of the text that are not whitespace, in their order, so nothing is cut away and no hyphen
  or other character is inserted; and a text that is one plain word (no whitespace, no
  hyphen) comes back cut into consecutive pieces of 44 characters, the last one possibly
  shorter. So a word longer than the wrap width is never left whole on a line.
\<close>

theorem wrap_breaks_long_words:
  assumes fl: "float_rounding fl"
  shows "\<exists>text_lines. wrap (max_chars fl) text = Inr text_lines
           \<and> (\<forall>line \<in> set text_lines. length line \<le> 44)
           \<and> visible (concat text_lines) = visible text
           \<and> (plain_word text \<longrightarrow> text_lines = pieces 44 text)
           \<and> (\<forall>word. 44 < length word \<longrightarrow> word \<notin> set text_lines)"
proof -
  have m: "max_chars fl = 44" by (rule max_chars_44 [OF fl])
  from wrap_total [of 44 "text"] obtain text_lines where w: "wrap 44 text = Inr text_lines"
    by auto
  have fit: "\<forall>line \<in> set text_lines. length line \<le> 44"
  proof
    fix line assume "line \<in> set text_lines"
    from wrap_lines_fit [OF w this] show "length line \<le> 44" by simp
  qed
  then have nw: "\<forall>word. 44 < length word \<longrightarrow> word \<notin> set text_lines" by auto
  have vis: "visible (concat text_lines) = visible text" by (rule wrap_visible [OF w])
  have pl: "plain_word text \<longrightarrow> text_lines = pieces 44 text"
  proof
    assume "plain_word text"
    from wrap_plain_word [OF this, of 44] w show "text_lines = pieces 44 text" by simp
  qed
  from m w fit vis pl nw show ?thesis by simp
qed

theorem wrap_breaks_long_words_witness:
  "float_rounding exact
   \<and> plain_word long_word
   \<and> wrap (max_chars exact) long_word = Inr (pieces 44 long_word)
   \<and> pieces 44 long_word = [replicate 44 (CHR ''a''), ''a'']"
proof -
  have p: "plain_word long_word" by code_simp
  have q: "pieces 44 long_word = [replicate 44 (CHR ''a''), ''a'']" by code_simp
  from wrap_breaks_long_words [OF float_rounding_exact, of long_word] p
  have "wrap (max_chars exact) long_word = Inr (pieces 44 long_word)" by auto
  with float_rounding_exact p q show ?thesis by simp
qed


section \<open>Properties of font resolution\<close>


lemma try_fonts_large_kept:
  "try_fonts load paths (Some f) font_small = Inr (font_large, fs) \<Longrightarrow> font_large \<noteq> None"
  by (induction paths arbitrary: f font_small) (auto split: sum.splits if_splits)

lemma try_fonts_none_large:
  assumes "\<forall>p \<in> set paths. load p 36 = Inl OSError"
  shows "try_fonts load paths font_large font_small = Inr (font_large, font_small)"
  using assms by (induction paths arbitrary: font_large font_small) auto


lemma resolve_fonts_default:
  assumes "\<forall>p \<in> set font_candidates. load p 36 = Inl OSError"
  shows "resolve_fonts load = Inr (Some DefaultFont, Some DefaultFont)"
  using assms try_fonts_none_large [of font_candidates load None None]
  by (simp add: resolve_fonts_def)


text \<open>
  The loop assigns \<^verbatim>\<open>font_large\<close> before it loads \<^verbatim>\<open>font_small\<close>, and line 204 tests
  \<^verbatim>\<open>font_large\<close> only. Were a candidate to load at 36 points and raise \<open>OSError\<close> at 24
  points, with every other candidate missing, \<^verbatim>\<open>font_large\<close> would keep that face and
  \<^verbatim>\<open>font_small\<close> would stay \<open>None\<close>, which Pillow draws with its built-in font.
\<close>

lemma resolve_fonts_half_loaded:
  "resolve_fonts half_loading_font
     = Inr (Some (FreeTypeFont ''/System/Library/Fonts/HelveticaNeue.ttc'' 36), None)"
  by (simp add: resolve_fonts_def font_candidates_def half_loading_font_def)







section \<open>Properties of the text layout\<close>

lemma get_text_size_cases:
  obtains (raised) e where "get_text_size E txt fnt = Inl e"
        | (measured) w h where "get_text_size E txt fnt = Inr (w, h)"
  by (cases "get_text_size E txt fnt") auto

lemma measure_heights_Inr:
  assumes "measure_heights E fnt ls = Inr hs"
  shows "length hs = length ls
         \<and> (\<forall>i < length ls. \<exists>w h. get_text_size E (ls ! i) fnt = Inr (w, h) \<and> hs ! i = h + 10)"
  using assms
proof (induction ls arbitrary: hs)
  case Nil
  then show ?case by simp
next
  case (Cons l ls)
  from Cons.prems obtain w h hs' where
    g: "get_text_size E l fnt = Inr (w, h)" and m: "measure_heights E fnt ls = Inr hs'"
    and hs: "hs = (h + 10) # hs'"
    by (auto split: sum.splits)
  from Cons.IH [OF m] have len: "length hs' = length ls"
    and ix: "\<forall>i < length ls. \<exists>w h. get_text_size E (ls ! i) fnt = Inr (w, h) \<and> hs' ! i = h + 10"
    by simp_all
  show ?case
  proof (intro conjI allI impI)
    show "length hs = length (l # ls)" using len hs by simp
  next
    fix i assume i: "i < length (l # ls)"
    show "\<exists>w h. get_text_size E ((l # ls) ! i) fnt = Inr (w, h) \<and> hs ! i = h + 10"
    proof (cases i)
      case 0
      with g hs show ?thesis by simp
    next
      case (Suc k)
      with i have "k < length ls" by simp
      with ix Suc hs show ?thesis by simp
    qed
  qed
qed

lemma draw_quote_Inr:
  assumes "draw_quote E fnt y ls hs = Inr (ops, y')" and "length hs = length ls"
  shows "length ops = 2 * length ls
         \<and> y' = y + of_int (sum_list hs)
         \<and> map op_text ops = concat (map (\<lambda>l. [l, l]) ls)
         \<and> (\<forall>i < length ls. \<exists>w h. get_text_size E (ls ! i) fnt = Inr (w, h)
               \<and> ops ! (2 * i) = shadow_op fnt (ls ! i) w (y + of_int (sum_list (take i hs)))
               \<and> ops ! (2 * i + 1) = line_op fnt (ls ! i) w (y + of_int (sum_list (take i hs))))"
  using assms
proof (induction ls arbitrary: y hs ops)
  case Nil
  then show ?case by simp
next
  case (Cons l ls)
  from Cons.prems(2) obtain lh hs' where hs: "hs = lh # hs'" and len: "length hs' = length ls"
    by (cases hs) auto
  from Cons.prems(1) hs obtain w h ops' where
    g: "get_text_size E l fnt = Inr (w, h)"
    and d: "draw_quote E fnt (y + of_int lh) ls hs' = Inr (ops', y')"
    and ops: "ops = shadow_op fnt l w y # line_op fnt l w y # ops'"
    by (auto simp: Let_def shadow_op_def line_op_def split: sum.splits)
  from Cons.IH [OF d len] have
    l': "length ops' = 2 * length ls"
    and y': "y' = y + of_int lh + of_int (sum_list hs')"
    and t': "map op_text ops' = concat (map (\<lambda>l. [l, l]) ls)"
    and ix: "\<forall>i < length ls. \<exists>w h. get_text_size E (ls ! i) fnt = Inr (w, h)
               \<and> ops' ! (2 * i)
                   = shadow_op fnt (ls ! i) w (y + of_int lh + of_int (sum_list (take i hs')))
               \<and> ops' ! (2 * i + 1)
                   = line_op fnt (ls ! i) w (y + of_int lh + of_int (sum_list (take i hs')))"
    by simp_all
  show ?case
  proof (intro conjI allI impI)
    show "length ops = 2 * length (l # ls)" using l' ops by simp
    show "y' = y + of_int (sum_list hs)" using y' hs by simp
    show "map op_text ops = concat (map (\<lambda>l. [l, l]) (l # ls))"
      using t' ops by (simp add: shadow_op_def line_op_def)
  next
    fix i assume i: "i < length (l # ls)"
    show "\<exists>w h. get_text_size E ((l # ls) ! i) fnt = Inr (w, h)
            \<and> ops ! (2 * i) = shadow_op fnt ((l # ls) ! i) w (y + of_int (sum_list (take i hs)))
            \<and> ops ! (2 * i + 1) = line_op fnt ((l # ls) ! i) w (y + of_int (sum_list (take i hs)))"
    proof (cases i)
      case 0
      with g ops show ?thesis by simp
    next
      case (Suc k)
      with i have k: "k < length ls" by simp
      from ix k obtain w' h' where
        g': "get_text_size E (ls ! k) fnt = Inr (w', h')"
        and a: "ops' ! (2 * k)
                  = shadow_op fnt (ls ! k) w' (y + of_int lh + of_int (sum_list (take k hs')))"
        and b: "ops' ! (2 * k + 1)
                  = line_op fnt (ls ! k) w' (y + of_int lh + of_int (sum_list (take k hs')))"
        by blast
      have s: "y + of_int (sum_list (take i hs)) = y + of_int lh + of_int (sum_list (take k hs'))"
        using Suc hs by simp
      have "ops ! (2 * i) = ops' ! (2 * k)" and "ops ! (2 * i + 1) = ops' ! (2 * k + 1)"
        using Suc ops by simp_all
      with g' a b s Suc show ?thesis by (simp add: add.assoc)
    qed
  qed
qed


lemma draw_text_block_Inr:
  assumes "draw_text_block E font_large font_small text_lines author = Inr tb"
  obtains hs aw0 ah0 ops y1 aw ah where
    "measure_heights E font_large text_lines = Inr hs"
    "get_text_size E author font_small = Inr (aw0, ah0)"
    "draw_quote E font_large (of_int (WINDOW_HEIGHT - (sum_list hs + (ah0 + 30))) / 2)
       text_lines hs = Inr (ops, y1)"
    "get_text_size E (''- '' @ author) font_small = Inr (aw, ah)"
    "line_heights tb = hs" "author_height tb = ah0"
    "total_height tb = sum_list hs + (ah0 + 30)"
    "start_y tb = of_int (WINDOW_HEIGHT - (sum_list hs + (ah0 + 30))) / 2"
    "quote_ops tb = ops" "author_y tb = y1 + 20" "drawn_author_height tb = ah"
    "map op_text (author_ops tb) = [''- '' @ author, ''- '' @ author]"
    "map op_y (author_ops tb) = [y1 + 20 + 1, y1 + 20]"
    "map op_x (author_ops tb)
       = [of_int (WINDOW_WIDTH - aw) / 2 + 1, of_int (WINDOW_WIDTH - aw) / 2]"
    "map op_font (author_ops tb) = [font_small, font_small]"
  using assms unfolding draw_text_block_def Let_def
  by (auto split: sum.splits prod.splits)


lemma sample_env_simps:
  "rounding sample_env = exact" "image_open sample_env = sample_open"
  "truetype sample_env = no_fonts" "textbbox sample_env = sample_textbbox"
  "allocatable sample_env = sample_allocatable"
  by (simp_all add: sample_env_def)

lemma sample_get_text_size:
  "get_text_size sample_env txt fnt = Inr (10 * int (length txt), if txt = [] then 0 else 20)"
  by (simp add: get_text_size_def sample_env_simps sample_textbbox_def)

lemma sample_resolve_fonts:
  "resolve_fonts (truetype sample_env) = Inr (Some DefaultFont, Some DefaultFont)"
  by (rule resolve_fonts_default) (simp add: sample_env_simps no_fonts_def)


lemma process_image_Some:
  assumes "process_image E image_data text author = Some f"
  obtains img sc font_large font_small quote text_lines author_str where
    "image_open E image_data = Inr img"
    "resize_and_crop (rounding E) (allocatable E) img = Inr sc"
    "resolve_fonts (truetype E) = Inr (font_large, font_small)"
    "text = JStr quote" "author = JStr author_str"
    "wrap (max_chars (rounding E)) quote = Inr text_lines"
    "draw_text_block E font_large font_small text_lines author_str = Inr (frame_text f)"
    "frame_size f = cropped sc" "frame_lines f = text_lines"
    "frame_fonts f = (font_large, font_small)" "overlay_alpha f = 100"
  using assms unfolding process_image_def process_image_try_def as_text_def
  by (auto split: sum.splits prod.splits json.splits)

lemma text_block_author_gap:
  assumes tb: "draw_text_block E font_large font_small text_lines author = Inr tb"
  shows "total_height tb = sum_list (line_heights tb) + author_height tb + 30"
    and "author_y tb = start_y tb + of_int (sum_list (line_heights tb)) + 20"
    and "start_y tb = of_int (WINDOW_HEIGHT - total_height tb) / 2"
proof -
  from tb obtain hs aw0 ah0 ops y1 aw ah where
    mh: "measure_heights E font_large text_lines = Inr hs"
    and dq: "draw_quote E font_large (of_int (WINDOW_HEIGHT - (sum_list hs + (ah0 + 30))) / 2)
               text_lines hs = Inr (ops, y1)"
    and lh: "line_heights tb = hs" and ah0: "author_height tb = ah0"
    and th: "total_height tb = sum_list hs + (ah0 + 30)"
    and sy: "start_y tb = of_int (WINDOW_HEIGHT - (sum_list hs + (ah0 + 30))) / 2"
    and ay: "author_y tb = y1 + 20"
    by (rule draw_text_block_Inr)
  from measure_heights_Inr [OF mh] have len: "length hs = length text_lines" by simp
  from dq sy have dq': "draw_quote E font_large (start_y tb) text_lines hs = Inr (ops, y1)"
    by (simp only:)
  from draw_quote_Inr [OF dq' len] have y1: "y1 = start_y tb + of_int (sum_list hs)" by simp
  show "total_height tb = sum_list (line_heights tb) + author_height tb + 30"
    using th lh ah0 by simp
  show "author_y tb = start_y tb + of_int (sum_list (line_heights tb)) + 20"
    using ay y1 lh by simp
  show "start_y tb = of_int (WINDOW_HEIGHT - total_height tb) / 2" using sy th by simp
qed

text \<open>
  Claim C10, at a concrete input: a one-line quote with the empty author string, which
  measures 0 pixels high while the drawn string \<^verbatim>\<open>"- "\<close> measures 20. The frame is
  composed, \<^verbatim>\<open>total_height\<close> is 60, but the drawn block spans 70 pixels, not 50, and its
  middle is at 305, below the centre 300 of the canvas, not 5 pixels above it.
\<close>

theorem author_gap_empty_author_counterexample:
  "map_option (total_height \<circ> frame_text)
       (process_image sample_env sample_bytes (JStr sample_quote) (JStr [])) = Some 60
   \<and> map_option (block_span \<circ> frame_text)
       (process_image sample_env sample_bytes (JStr sample_quote) (JStr [])) = Some 70
   \<and> map_option (block_middle \<circ> frame_text)
       (process_image sample_env sample_bytes (JStr sample_quote) (JStr [])) = Some 305
   \<and> WINDOW_HEIGHT = 600"
  by code_simp

text \<open>
  Claim C10, amended. \<^verbatim>\<open>total_height\<close> reserves 30 pixels before the author line, and
  the author line is drawn 20 pixels below the quote block. For every composed frame in
  which the author string with its prefix \<^verbatim>\<open>"- "\<close> measures as high as the author
  string alone, the drawn block spans \<open>total_height - 10\<close> pixels and its middle lies 5
  pixels above the centre of the canvas.
\<close>

theorem author_gap_offset:
  assumes f: "process_image E image_data text author = Some f"
    and same: "drawn_author_height (frame_text f) = author_height (frame_text f)"
  shows "total_height (frame_text f)
           = sum_list (line_heights (frame_text f)) + author_height (frame_text f) + 30
         \<and> author_y (frame_text f)
           = start_y (frame_text f) + of_int (sum_list (line_heights (frame_text f))) + 20
         \<and> block_span (frame_text f) = of_int (total_height (frame_text f) - 10)
         \<and> block_middle (frame_text f) = of_int WINDOW_HEIGHT / 2 - 5"
proof -
  from f obtain font_large font_small text_lines author_str where
    tb: "draw_text_block E font_large font_small text_lines author_str = Inr (frame_text f)"
    by (rule process_image_Some)
  note g = text_block_author_gap [OF tb]
  have sp: "block_span (frame_text f) = of_int (total_height (frame_text f) - 10)"
    using g(1) g(2) same by (simp add: block_span_def)
  have "block_middle (frame_text f)
          = (2 * start_y (frame_text f) + of_int (total_height (frame_text f) - 10)) / 2"
    using sp by (simp add: block_middle_def block_span_def)
  also have "\<dots> = of_int WINDOW_HEIGHT / 2 - 5"
    using g(3) by (simp add: field_simps)
  finally have mid: "block_middle (frame_text f) = of_int WINDOW_HEIGHT / 2 - 5" .
  from g(1) g(2) sp mid show ?thesis by simp
qed

lemma sample_wrap: "wrap (max_chars (rounding sample_env)) sample_quote = Inr [sample_quote]"
proof -
  have m: "max_chars (rounding sample_env) = 44"
    by (simp add: sample_env_simps max_chars_44 [OF float_rounding_exact])
  have "wrap 44 sample_quote = Inr [sample_quote]" by code_simp
  with m show ?thesis by simp
qed

lemma sample_resize:
  "\<exists>sc. resize_and_crop (rounding sample_env) (allocatable sample_env) sample_image = Inr sc"
proof -
  have ev: "scaled_size exact sample_image = Inr (900, 629)" by code_simp
  have rs: "resize sample_allocatable sample_image (900, 629)
              = Inr \<lparr>width = 900, height = 629\<rparr>"
    by (simp add: resize_def sample_allocatable_def)
  from resize_and_crop_accepted [OF float_rounding_exact ev rs] show ?thesis
    by (simp add: sample_env_simps)
qed

lemma sample_process:
  "\<exists>f. process_image sample_env sample_bytes (JStr sample_quote) (JStr ''Me'') = Some f
       \<and> drawn_author_height (frame_text f) = author_height (frame_text f)"
proof -
  from sample_resize obtain sc where
    "resize_and_crop (rounding sample_env) (allocatable sample_env) sample_image = Inr sc" ..
  then show ?thesis
    by (simp add: process_image_def process_image_try_def as_text_def sample_wrap
        sample_resolve_fonts draw_text_block_def sample_get_text_size Let_def
        sample_env_simps(2) sample_open_def)
qed

theorem author_gap_offset_witness:
  "\<exists>f. process_image sample_env sample_bytes (JStr sample_quote) (JStr ''Me'') = Some f
       \<and> drawn_author_height (frame_text f) = author_height (frame_text f)
       \<and> block_span (frame_text f) = of_int (total_height (frame_text f) - 10)
       \<and> block_middle (frame_text f) = 295"
proof -
  from sample_process obtain f where
    f: "process_image sample_env sample_bytes (JStr sample_quote) (JStr ''Me'') = Some f"
    and s: "drawn_author_height (frame_text f) = author_height (frame_text f)"
    by blast
  from author_gap_offset [OF f s] have
    "block_span (frame_text f) = of_int (total_height (frame_text f) - 10)"
    and "block_middle (frame_text f) = of_int WINDOW_HEIGHT / 2 - 5"
    by simp_all
  with f s show ?thesis by (auto simp: WINDOW_HEIGHT_def)
qed

section \<open>Properties of the cycle\<close>








end
